theory Spec2Isabelle
  imports Main "HOL-Library.Multiset" "HOL-Library.Sublist"
begin

section \<open>Data model (src/types.ts)\<close>

text \<open>
  \<^verbatim>\<open>Category\<close> is a union of five string literals: a category is a string, and the
  five names are constants. The union is a compile-time annotation; nothing checks at
  run time that a category is one of the five (the suggestion of the AI service is
  stored as it comes). The sidebar's selection (\<^verbatim>\<open>Category | 'All'\<close>, App.tsx line 32)
  is the sentinel \<^verbatim>\<open>'All'\<close>, written \<open>All_notes\<close>, or a category.
  A \<^verbatim>\<open>Note\<close> is a record of six fields. The field \<^verbatim>\<open>id\<close> is written
  \<open>id_note\<close>, since \<open>id\<close> is the identity function of HOL. JavaScript strings are
  modelled as lists of Isabelle characters (code units in the range 0..255), and
  \<^verbatim>\<open>updatedAt\<close> as an integer: every value the program writes there is a reading of
  \<^verbatim>\<open>Date.now()\<close>, an integral number of milliseconds.
\<close>

type_synonym category = string

abbreviation Personal :: category where "Personal \<equiv> ''Personal''"

abbreviation Work :: category where "Work \<equiv> ''Work''"

abbreviation Ideas :: category where "Ideas \<equiv> ''Ideas''"

abbreviation Urgent :: category where "Urgent \<equiv> ''Urgent''"

abbreviation General :: category where "General \<equiv> ''General''"

definition CATEGORIES :: "category list" where
  "CATEGORIES = [General, Personal, Work, Ideas, Urgent]"

datatype selected = All_notes | Cat category

record Note =
  id_note :: string
  title :: string
  content :: string
  category :: category
  updatedAt :: int
  isFavorite :: bool

section \<open>Note repository (src/App.tsx, lines 80--102)\<close>

text \<open>
  The state updaters passed to \<^verbatim>\<open>setNotes\<close>, as functions from the previous
  collection to the next one. The reading of \<^verbatim>\<open>Date.now()\<close> is the parameter
  \<open>now\<close>; \<^verbatim>\<open>prev.find\<close> is \<^const>\<open>find\<close>, and an object it returns is truthy.
\<close>

definition handleSaveNote :: "int \<Rightarrow> Note \<Rightarrow> Note list \<Rightarrow> Note list" where
  "handleSaveNote now updatedNote prev =
     (case find (\<lambda>n. id_note n = id_note updatedNote) prev of
        Some existing \<Rightarrow>
          map (\<lambda>n. if id_note n = id_note updatedNote
                    then updatedNote\<lparr>updatedAt := now\<rparr> else n) prev
      | None \<Rightarrow> prev @ [updatedNote\<lparr>updatedAt := now\<rparr>])"

text \<open>\<^verbatim>\<open>confirm('Delete this note?')\<close> is the parameter \<open>confirmed\<close>.\<close>

definition handleDeleteNote :: "bool \<Rightarrow> string \<Rightarrow> Note list \<Rightarrow> Note list" where
  "handleDeleteNote confirmed i prev =
     (if confirmed then filter (\<lambda>n. id_note n \<noteq> i) prev else prev)"

definition toggleFavorite :: "string \<Rightarrow> Note list \<Rightarrow> Note list" where
  "toggleFavorite i prev =
     map (\<lambda>n. if id_note n = i then n\<lparr>isFavorite := \<not> isFavorite n\<rparr> else n) prev"

section \<open>Query engine (src/App.tsx, lines 43--52)\<close>

text \<open>
  \<^verbatim>\<open>String.prototype.toLowerCase\<close> on code units 0..255. The letters A--Z (65--90) and
  the capital letters of Latin-1 (192--222, without the multiplication sign 215) go to
  the unit 32 places up; every other unit of the range is its own lower-case form, and
  no mapping of this range depends on the neighbours of a unit. Then
  \<^verbatim>\<open>String.prototype.includes\<close>: the argument occurs at some position of the receiver.
\<close>

definition lower_char :: "char \<Rightarrow> char" where
  "lower_char c =
     (let k = (of_char c :: nat) in
      if (65 \<le> k \<and> k \<le> 90) \<or> (192 \<le> k \<and> k \<le> 222 \<and> k \<noteq> 215)
      then char_of (k + 32) else c)"

definition toLowerCase :: "string \<Rightarrow> string" where
  "toLowerCase s = map lower_char s"

fun includes_js :: "'a list \<Rightarrow> 'a list \<Rightarrow> bool" where
  "includes_js [] t = (t = [])"
| "includes_js (c # s) t = (prefix t (c # s) \<or> includes_js s t)"

text \<open>
  \<^verbatim>\<open>Array.prototype.sort\<close> with a comparator: a stable sort (ECMAScript 2019), here
  by insertion. \<open>cmp a b \<le> 0\<close> keeps \<open>a\<close> before \<open>b\<close>.
\<close>

fun insert_by :: "('a \<Rightarrow> 'a \<Rightarrow> int) \<Rightarrow> 'a \<Rightarrow> 'a list \<Rightarrow> 'a list" where
  "insert_by cmp x [] = [x]"
| "insert_by cmp x (y # ys) =
     (if cmp x y \<le> 0 then x # y # ys else y # insert_by cmp x ys)"

fun sort_by :: "('a \<Rightarrow> 'a \<Rightarrow> int) \<Rightarrow> 'a list \<Rightarrow> 'a list" where
  "sort_by cmp [] = []"
| "sort_by cmp (x # xs) = insert_by cmp x (sort_by cmp xs)"

definition matchesSearch :: "string \<Rightarrow> Note \<Rightarrow> bool" where
  "matchesSearch searchQuery n =
     (includes_js (toLowerCase (title n)) (toLowerCase searchQuery) \<or>
      includes_js (toLowerCase (content n)) (toLowerCase searchQuery))"

definition matchesCategory :: "selected \<Rightarrow> Note \<Rightarrow> bool" where
  "matchesCategory selectedCategory n =
     (selectedCategory = All_notes \<or> Cat (category n) = selectedCategory)"

definition filteredNotes :: "Note list \<Rightarrow> string \<Rightarrow> selected \<Rightarrow> Note list" where
  "filteredNotes notes searchQuery selectedCategory =
     sort_by (\<lambda>a b. updatedAt b - updatedAt a)
       (filter (\<lambda>n. matchesSearch searchQuery n \<and> matchesCategory selectedCategory n) notes)"

text \<open>
  The query engine in the words of the specification: a search term occurs in a text
  as a case-insensitive substring when some window of the text, of the term's length,
  equals the term up to the case of letters. Case is given by the alphabet, not by the
  program's conversion: the capital letters and, at the same places, their small
  forms. Two characters are the same up to case when they are equal or are the capital
  and the small form of one letter.
\<close>

definition capital_letters :: string where
  "capital_letters =
     ''ABCDEFGHIJKLMNOPQRSTUVWXYZ'' @
     [CHR 0xC0, CHR 0xC1, CHR 0xC2, CHR 0xC3, CHR 0xC4, CHR 0xC5, CHR 0xC6, CHR 0xC7,
      CHR 0xC8, CHR 0xC9, CHR 0xCA, CHR 0xCB, CHR 0xCC, CHR 0xCD, CHR 0xCE, CHR 0xCF,
      CHR 0xD0, CHR 0xD1, CHR 0xD2, CHR 0xD3, CHR 0xD4, CHR 0xD5, CHR 0xD6,
      CHR 0xD8, CHR 0xD9, CHR 0xDA, CHR 0xDB, CHR 0xDC, CHR 0xDD, CHR 0xDE]"

definition small_letters :: string where
  "small_letters =
     ''abcdefghijklmnopqrstuvwxyz'' @
     [CHR 0xE0, CHR 0xE1, CHR 0xE2, CHR 0xE3, CHR 0xE4, CHR 0xE5, CHR 0xE6, CHR 0xE7,
      CHR 0xE8, CHR 0xE9, CHR 0xEA, CHR 0xEB, CHR 0xEC, CHR 0xED, CHR 0xEE, CHR 0xEF,
      CHR 0xF0, CHR 0xF1, CHR 0xF2, CHR 0xF3, CHR 0xF4, CHR 0xF5, CHR 0xF6,
      CHR 0xF8, CHR 0xF9, CHR 0xFA, CHR 0xFB, CHR 0xFC, CHR 0xFD, CHR 0xFE]"

definition same_letter :: "char \<Rightarrow> char \<Rightarrow> bool" where
  "same_letter a b =
     (a = b \<or> (a, b) \<in> set (zip capital_letters small_letters)
        \<or> (b, a) \<in> set (zip capital_letters small_letters))"




section \<open>JSON values\<close>

text \<open>
  What \<^verbatim>\<open>JSON.parse\<close> returns: \<open>null\<close>, a boolean, a number, a string, an array or an
  object; an object keeps its members in the order of their first appearance. Numbers
  are integers (every number the program stores is a clock reading).
\<close>

datatype json =
    JNull
  | JBool bool
  | JNum int
  | JStr string
  | JArr "json list"
  | JObj "(string \<times> json) list"

text \<open>
  The member of an object under a key, \<open>None\<close> for \<^verbatim>\<open>undefined\<close>: an object without
  the key has none, and neither has a value that is no object (no key read in this
  program is a property of a boolean, a number, a string or an array).
\<close>

definition field :: "string \<Rightarrow> json \<Rightarrow> json option" where
  "field k v = (case v of JObj ms \<Rightarrow> map_of ms k | _ \<Rightarrow> None)"

section \<open>AI assist client (src/services/geminiService.ts)\<close>

text \<open>
  \<^verbatim>\<open>AIResponse\<close>, with its three optional fields, is a compile-time annotation:
  \<^verbatim>\<open>getSmartSuggestions\<close> returns what \<^verbatim>\<open>JSON.parse\<close> gave it (lines 31--32), unchecked,
  so its result is a JSON value, and the empty result \<^verbatim>\<open>{}\<close> is the object without
  members. The answer of the remote service is an input of the model: \<open>Failed\<close> stands
  for every exception inside the \<^verbatim>\<open>try\<close> block (a rejected \<^verbatim>\<open>generateContent\<close>, a
  \<^verbatim>\<open>JSON.parse\<close> that throws); \<open>Replied v\<close> says that
  \<^verbatim>\<open>JSON.parse(response.text || '{}')\<close> returned \<open>v\<close>. The response schema of lines 16--27
  asks the service for an object with three strings; nothing in the program checks
  that the answer is one.
\<close>

datatype 'a outcome = Failed | Replied 'a

definition empty_response :: json where
  "empty_response = JObj []"

definition suggest_prompt :: "string \<Rightarrow> string" where
  "suggest_prompt content' =
     ''Analyze this note and provide a concise title, a short summary (1 sentence), and the most appropriate category (Personal, Work, Ideas, Urgent, or General). Content: ''
       @ [CHR 0x22] @ content' @ [CHR 0x22]"

definition enhance_prompt :: "string \<Rightarrow> string" where
  "enhance_prompt content' =
     ''Clean up the grammar and formatting of the following note while keeping its original meaning. Use bullet points if helpful. Content: ''
       @ [CHR 0x22] @ content' @ [CHR 0x22]"

text \<open>
  An \<^verbatim>\<open>async\<close> function runs up to its first \<^verbatim>\<open>await\<close> when it is called, and the
  rest when the awaited promise settles. \<open>suggest_request\<close> is the first part of
  \<^verbatim>\<open>getSmartSuggestions\<close>: the outbound request it issues, if any (line 8 returns
  before any request when the content is empty or shorter than 10 code units).
  \<open>getSmartSuggestions\<close> is the value the returned promise resolves to, given the
  outcome of that request.
\<close>

definition suggest_request :: "string \<Rightarrow> string option" where
  "suggest_request content' =
     (if content' = [] \<or> length content' < 10 then None else Some (suggest_prompt content'))"

definition getSmartSuggestions :: "json outcome \<Rightarrow> string \<Rightarrow> json" where
  "getSmartSuggestions reply content' =
     (case suggest_request content' of
        None \<Rightarrow> empty_response
      | Some prompt \<Rightarrow> (case reply of Failed \<Rightarrow> empty_response | Replied result \<Rightarrow> result))"

text \<open>
  \<^verbatim>\<open>enhanceNote\<close> always issues its request; \<^verbatim>\<open>response.text || content\<close> falls back
  to the content when the text is missing or empty (both are the empty string here).
\<close>

definition enhance_request :: "string \<Rightarrow> string option" where
  "enhance_request content' = Some (enhance_prompt content')"

definition enhanceNote :: "string outcome \<Rightarrow> string \<Rightarrow> string" where
  "enhanceNote reply content' =
     (case reply of
        Failed \<Rightarrow> content'
      | Replied text' \<Rightarrow> (if text' = [] then content' else text'))"

section \<open>Application state and event handlers (src/App.tsx)\<close>

text \<open>
  The state of the component: the hooks of lines 27--36 that the handlers below read or
  write. Three fields belong to the model only: \<open>inFlight\<close>, the handler invocations that
  have passed \<^verbatim>\<open>setIsAILoading(true)\<close> and not yet reached their \<^verbatim>\<open>finally\<close>, each
  with the content its closure captured; \<open>sent\<close>, the log of outbound requests; and
  \<open>fault\<close>. The hook \<^verbatim>\<open>notes\<close> is written \<open>notes_app\<close>. The field \<open>fault\<close> is \<open>None\<close> while
  the component is mounted and the model follows it. It records a \<open>TypeError\<close> when a state
  updater has thrown one: React runs an updater while it renders, outside the handler
  that queued it, the component has no error boundary, and an exception thrown while
  rendering unmounts it, with its hooks. It records \<open>IllTyped\<close> when the program has
  stored a value that is no string in a string field of the draft, which a \<open>Note\<close> of
  this model cannot hold. A session ends at a fault.
\<close>

datatype ai_call = Suggest string | Enhance string

datatype update_error = TypeError | IllTyped

record App =
  notes_app :: "Note list"
  editingNote :: "Note option"
  isNoteModalOpen :: bool
  isAILoading :: bool
  inFlight :: "ai_call list"
  sent :: "string list"
  fault :: "update_error option"

text \<open>\<^verbatim>\<open>Number.prototype.toString\<close> on an integer: its decimal digits.\<close>

definition digit_char :: "nat \<Rightarrow> char" where
  "digit_char d = ''0123456789'' ! d"

function digits :: "nat \<Rightarrow> string" where
  "digits n = (if n < 10 then [digit_char n] else digits (n div 10) @ [digit_char (n mod 10)])"
  by pat_completeness auto
termination
  by (relation "measure (\<lambda>n. n)") auto

declare digits.simps [simp del]

definition toString_int :: "int \<Rightarrow> string" where
  "toString_int i = (if i < 0 then CHR ''-'' # digits (nat (- i)) else digits (nat i))"

text \<open>The number a string of decimal digits denotes (the inverse of \<open>digits\<close>).\<close>

definition digit_val :: "char \<Rightarrow> nat" where
  "digit_val c = of_char c - 48"

definition num_of :: "string \<Rightarrow> nat" where
  "num_of s = foldl (\<lambda>a c. 10 * a + digit_val c) 0 s"

text \<open>
  \<^verbatim>\<open>handleAddNote\<close> reads the clock twice, once for the id and once for
  \<^verbatim>\<open>updatedAt\<close>.
\<close>

definition handleAddNote :: "int \<Rightarrow> int \<Rightarrow> App \<Rightarrow> App" where
  "handleAddNote now_id now_updated s =
     s\<lparr>editingNote := Some \<lparr>id_note = toString_int now_id, title = [], content = [],
                             category = General, updatedAt = now_updated,
                             isFavorite = False\<rparr>,
       isNoteModalOpen := True\<rparr>"

definition handleEditNote :: "Note \<Rightarrow> App \<Rightarrow> App" where
  "handleEditNote n s = s\<lparr>editingNote := Some n, isNoteModalOpen := True\<rparr>"

text \<open>
  The whole of \<^verbatim>\<open>handleSaveNote\<close> (lines 80--90): the updater above on the
  collection, then the modal is closed and the draft dropped.
\<close>

definition saveNote :: "int \<Rightarrow> Note \<Rightarrow> App \<Rightarrow> App" where
  "saveNote now updatedNote s =
     s\<lparr>notes_app := handleSaveNote now updatedNote (notes_app s),
       isNoteModalOpen := False, editingNote := None\<rparr>"

text \<open>
  \<^verbatim>\<open>handleAISuggestions\<close> and \<^verbatim>\<open>handleAIEnhance\<close> up to their \<^verbatim>\<open>await\<close>: the guard
  of lines 105 and 122, the flag, and the call into the service.
\<close>

definition handleAISuggestions :: "App \<Rightarrow> App" where
  "handleAISuggestions s =
     (case editingNote s of
        None \<Rightarrow> s
      | Some d \<Rightarrow>
          if content d = [] then s
          else s\<lparr>isAILoading := True,
                 inFlight := inFlight s @ [Suggest (content d)],
                 sent := sent s @ (case suggest_request (content d) of
                                     None \<Rightarrow> [] | Some prompt \<Rightarrow> [prompt])\<rparr>)"

definition handleAIEnhance :: "App \<Rightarrow> App" where
  "handleAIEnhance s =
     (case editingNote s of
        None \<Rightarrow> s
      | Some d \<Rightarrow>
          if content d = [] then s
          else s\<lparr>isAILoading := True,
                 inFlight := inFlight s @ [Enhance (content d)],
                 sent := sent s @ (case enhance_request (content d) of
                                     None \<Rightarrow> [] | Some prompt \<Rightarrow> [prompt])\<rparr>)"

text \<open>
  The pieces of the updater of lines 109--113. A property read
  \<^verbatim>\<open>suggestions.title\<close> or \<^verbatim>\<open>suggestions.suggestedCategory\<close>: \<^verbatim>\<open>null\<close> has no
  properties and the read throws a \<^verbatim>\<open>TypeError\<close>; every other value gives its member
  of that key, or \<^verbatim>\<open>undefined\<close>. Truthiness: \<^verbatim>\<open>null\<close>, \<^verbatim>\<open>false\<close>, \<open>0\<close> and the empty
  string are falsy, every other value is truthy. \<^verbatim>\<open>x || fallback\<close> with a string
  \<open>fallback\<close>, stored in a string field of the draft: the fallback when \<open>x\<close> is
  \<^verbatim>\<open>undefined\<close> or falsy, \<open>x\<close> itself when it is truthy, which the draft of this model
  can hold when it is a string.
\<close>

definition get_prop :: "string \<Rightarrow> json \<Rightarrow> update_error + json option" where
  "get_prop k v = (if v = JNull then Inl TypeError else Inr (field k v))"

definition truthy :: "json \<Rightarrow> bool" where
  "truthy v =
     (case v of
        JNull \<Rightarrow> False | JBool b \<Rightarrow> b | JNum i \<Rightarrow> i \<noteq> 0 | JStr t \<Rightarrow> t \<noteq> []
      | JArr vs \<Rightarrow> True | JObj ms \<Rightarrow> True)"

definition or_string :: "json option \<Rightarrow> string \<Rightarrow> update_error + string" where
  "or_string x fallback =
     (case x of
        None \<Rightarrow> Inr fallback
      | Some v \<Rightarrow>
          if \<not> truthy v then Inr fallback
          else (case v of JStr t \<Rightarrow> Inr t | _ \<Rightarrow> Inl IllTyped))"

text \<open>
  The updater passed to \<^verbatim>\<open>setEditingNote\<close> on a draft \<open>prev\<close> (the object literal of
  lines 110--113), its properties evaluated in order. In
  \<^verbatim>\<open>prev.title || suggestions.title || ''\<close> a non-empty title of the draft is the value
  and \<^verbatim>\<open>suggestions.title\<close> is not read; in
  \<^verbatim>\<open>suggestions.suggestedCategory || prev.category\<close> the property is always read.
\<close>

definition applySuggestions :: "json \<Rightarrow> Note \<Rightarrow> update_error + Note" where
  "applySuggestions suggestions prev =
     (case (if title prev \<noteq> [] then Inr (title prev)
            else (case get_prop ''title'' suggestions of
                    Inl e \<Rightarrow> Inl e
                  | Inr x \<Rightarrow> or_string x [])) of
        Inl e \<Rightarrow> Inl e
      | Inr t \<Rightarrow>
          (case get_prop ''suggestedCategory'' suggestions of
             Inl e \<Rightarrow> Inl e
           | Inr x \<Rightarrow>
               (case or_string x (category prev) of
                  Inl e \<Rightarrow> Inl e
                | Inr k \<Rightarrow> Inr (prev\<lparr>title := t, category := k\<rparr>))))"

text \<open>
  The rest of the two handlers, run when the awaited promise settles: the updater
  passed to \<^verbatim>\<open>setEditingNote\<close> (lines 109--113 and 126), then \<^verbatim>\<open>finally\<close>. Neither
  promise rejects (both service functions catch everything), so the \<^verbatim>\<open>catch\<close> blocks
  of the handlers have no branch here. The updater is \<^verbatim>\<open>prev ? {...} : null\<close>: without
  a draft it reads nothing of the suggestions. The \<^verbatim>\<open>try\<close> of lines 107--118 covers the
  call of \<^verbatim>\<open>setEditingNote\<close>, which queues the updater, not its run: a \<^verbatim>\<open>TypeError\<close> of
  the updater is thrown while the component renders and unmounts it, so the draft and
  the editor are gone (\<^verbatim>\<open>finally\<close> has run by then). When the updater would store a
  value that is no string, the model records it and leaves the draft, which no longer
  is the program's, as it was.
\<close>

definition suggestionsSettled :: "json outcome \<Rightarrow> string \<Rightarrow> App \<Rightarrow> App" where
  "suggestionsSettled reply content' s =
     (case editingNote s of
        None \<Rightarrow> s\<lparr>isAILoading := False\<rparr>
      | Some prev \<Rightarrow>
          (case applySuggestions (getSmartSuggestions reply content') prev of
             Inr d \<Rightarrow> s\<lparr>editingNote := Some d, isAILoading := False\<rparr>
           | Inl TypeError \<Rightarrow>
               s\<lparr>editingNote := None, isNoteModalOpen := False, isAILoading := False,
                 fault := Some TypeError\<rparr>
           | Inl IllTyped \<Rightarrow> s\<lparr>isAILoading := False, fault := Some IllTyped\<rparr>))"

definition enhanceSettled :: "string outcome \<Rightarrow> string \<Rightarrow> App \<Rightarrow> App" where
  "enhanceSettled reply content' s =
     s\<lparr>editingNote :=
         map_option (\<lambda>prev. prev\<lparr>content := enhanceNote reply content'\<rparr>) (editingNote s),
       isAILoading := False\<rparr>"

text \<open>
  The events of a session. The editor's controls exist only while the modal is
  rendered (line 328: \<^verbatim>\<open>isNoteModalOpen && editingNote\<close>); the two AI buttons are
  disabled, and then fire no click, when \<^verbatim>\<open>isAILoading || !editingNote.content\<close>
  (lines 386 and 395); a card shows a note of the collection. An event whose control
  is absent or disabled leaves the state as it is.
\<close>

datatype event =
    AddNote int int
  | EditNote Note
  | SetTitle string
  | SetContent string
  | SetCategory category
  | ToggleDraftFavorite
  | CloseModal
  | SaveNote int
  | DeleteNote string bool
  | ToggleFavorite string
  | ClickSmartSuggest
  | ClickAIEnhance
  | SuggestSettled "json outcome"
  | EnhanceSettled "string outcome"

definition in_editor :: "App \<Rightarrow> (Note \<Rightarrow> App) \<Rightarrow> App" where
  "in_editor s k =
     (case editingNote s of
        Some d \<Rightarrow> if isNoteModalOpen s then k d else s
      | None \<Rightarrow> s)"

definition ai_disabled :: "App \<Rightarrow> Note \<Rightarrow> bool" where
  "ai_disabled s d = (isAILoading s \<or> content d = [])"

fun step :: "event \<Rightarrow> App \<Rightarrow> App" where
  "step (AddNote now_id now_updated) s = handleAddNote now_id now_updated s"
| "step (EditNote n) s = (if n \<in> set (notes_app s) then handleEditNote n s else s)"
| "step (SetTitle v) s = in_editor s (\<lambda>d. s\<lparr>editingNote := Some (d\<lparr>title := v\<rparr>)\<rparr>)"
| "step (SetContent v) s = in_editor s (\<lambda>d. s\<lparr>editingNote := Some (d\<lparr>content := v\<rparr>)\<rparr>)"
| "step (SetCategory v) s = in_editor s (\<lambda>d. s\<lparr>editingNote := Some (d\<lparr>category := v\<rparr>)\<rparr>)"
| "step ToggleDraftFavorite s =
     in_editor s (\<lambda>d. s\<lparr>editingNote := Some (d\<lparr>isFavorite := \<not> isFavorite d\<rparr>)\<rparr>)"
| "step CloseModal s = in_editor s (\<lambda>d. s\<lparr>isNoteModalOpen := False\<rparr>)"
| "step (SaveNote now) s = in_editor s (\<lambda>d. saveNote now d s)"
| "step (DeleteNote i confirmed) s = s\<lparr>notes_app := handleDeleteNote confirmed i (notes_app s)\<rparr>"
| "step (ToggleFavorite i) s = s\<lparr>notes_app := toggleFavorite i (notes_app s)\<rparr>"
| "step ClickSmartSuggest s =
     in_editor s (\<lambda>d. if ai_disabled s d then s else handleAISuggestions s)"
| "step ClickAIEnhance s =
     in_editor s (\<lambda>d. if ai_disabled s d then s else handleAIEnhance s)"
| "step (SuggestSettled reply) s =
     (case inFlight s of
        Suggest c # rest \<Rightarrow> (suggestionsSettled reply c s)\<lparr>inFlight := rest\<rparr>
      | _ \<Rightarrow> s)"
| "step (EnhanceSettled reply) s =
     (case inFlight s of
        Enhance c # rest \<Rightarrow> (enhanceSettled reply c s)\<lparr>inFlight := rest\<rparr>
      | _ \<Rightarrow> s)"

text \<open>A session: the events in their order, up to a fault if there is one.\<close>

fun run :: "event list \<Rightarrow> App \<Rightarrow> App" where
  "run [] s = s"
| "run (e # es) s = (if fault s = None then run es (step e s) else s)"

text \<open>The state after \<^verbatim>\<open>load\<close> has produced the collection \<open>ns\<close>.\<close>

definition initial :: "Note list \<Rightarrow> App" where
  "initial ns = \<lparr>notes_app = ns, editingNote = None, isNoteModalOpen = False,
                  isAILoading = False, inFlight = [], sent = [], fault = None\<rparr>"

text \<open>
  The invariant of the busy flag: the flag is set exactly while one handler invocation
  is between \<^verbatim>\<open>setIsAILoading(true)\<close> and its \<^verbatim>\<open>finally\<close>.
\<close>

definition ai_inv :: "App \<Rightarrow> bool" where
  "ai_inv s = (if isAILoading s then length (inFlight s) = 1 else inFlight s = [])"

text \<open>
  A session with a request outstanding: a new note, some content, a click on
  ``Smart Suggest''.
\<close>

definition busy_session :: App where
  "busy_session =
     run [AddNote 5 6, SetContent ''remember to call the bank'', ClickSmartSuggest] (initial [])"


definition bank_reply :: json where
  "bank_reply =
     JObj [(''title'', JStr ''Call the bank''), (''summary'', JStr ''A reminder.''),
           (''suggestedCategory'', JStr ''Finance'')]"




section \<open>Persistence (src/App.tsx, lines 27--30 and 39--41)\<close>

text \<open>
  The storage slot holds a string or nothing. \<^verbatim>\<open>JSON.stringify\<close> and \<^verbatim>\<open>JSON.parse\<close>
  are functions of the platform; they are modelled on the values a note collection
  needs and, for the parser, on every input text. A number literal with a fraction or
  an exponent, and an escape \<^verbatim>\<open>\uXXXX\<close> above 255, are reported as \<open>OutsideModel\<close>. A
  \<open>SyntaxError\<close> is the exception \<^verbatim>\<open>JSON.parse\<close> throws.
\<close>

text \<open>
  \<^verbatim>\<open>JSON.stringify\<close> (without indentation): strings are quoted, with the two-character
  escapes for the quote, the backslash and the five named control characters, and
  \<^verbatim>\<open>\u00XX\<close> for the other control characters; array elements and object members are
  joined by commas.
\<close>

definition hex_digit :: "nat \<Rightarrow> char" where
  "hex_digit d = ''0123456789abcdef'' ! d"

definition quote_char :: "char \<Rightarrow> string" where
  "quote_char c =
     (if c = CHR 0x22 then [CHR 0x5C, CHR 0x22]
      else if c = CHR 0x5C then [CHR 0x5C, CHR 0x5C]
      else if c = CHR 0x08 then [CHR 0x5C, CHR ''b'']
      else if c = CHR 0x0C then [CHR 0x5C, CHR ''f'']
      else if c = CHR 0x0A then [CHR 0x5C, CHR ''n'']
      else if c = CHR 0x0D then [CHR 0x5C, CHR ''r'']
      else if c = CHR 0x09 then [CHR 0x5C, CHR ''t'']
      else if (of_char c :: nat) < 32
        then [CHR 0x5C, CHR ''u'', CHR ''0'', CHR ''0'',
              hex_digit ((of_char c :: nat) div 16), hex_digit ((of_char c :: nat) mod 16)]
      else [c])"

definition quote :: "string \<Rightarrow> string" where
  "quote s = [CHR 0x22] @ concat (map quote_char s) @ [CHR 0x22]"

fun join :: "string list \<Rightarrow> string" where
  "join [] = []"
| "join [x] = x"
| "join (x # y # ys) = x @ '','' @ join (y # ys)"

fun stringify :: "json \<Rightarrow> string" where
  "stringify JNull = ''null''"
| "stringify (JBool b) = (if b then ''true'' else ''false'')"
| "stringify (JNum i) = toString_int i"
| "stringify (JStr s) = quote s"
| "stringify (JArr vs) = ''['' @ join (map stringify vs) @ '']''"
| "stringify (JObj ms) =
     ''{'' @ join (map (\<lambda>m. quote (fst m) @ '':'' @ stringify (snd m)) ms) @ ''}''"

text \<open>
  \<^verbatim>\<open>JSON.parse\<close>: a recursive-descent parser. White space is skipped before every
  token; a string body ends at the first unescaped quote; a number is an optional
  minus sign and either \<open>0\<close> or a run of digits.
\<close>

datatype parse_error = SyntaxError | OutsideModel | OutOfFuel

definition is_ws :: "char \<Rightarrow> bool" where
  "is_ws c = (c = CHR 0x20 \<or> c = CHR 0x09 \<or> c = CHR 0x0A \<or> c = CHR 0x0D)"

definition skip_ws :: "string \<Rightarrow> string" where
  "skip_ws s = dropWhile is_ws s"

definition is_digit :: "char \<Rightarrow> bool" where
  "is_digit c = (48 \<le> (of_char c :: nat) \<and> (of_char c :: nat) \<le> 57)"

definition hex_val :: "char \<Rightarrow> nat option" where
  "hex_val c =
     (let k = (of_char c :: nat) in
      if 48 \<le> k \<and> k \<le> 57 then Some (k - 48)
      else if 97 \<le> k \<and> k \<le> 102 then Some (k - 87)
      else if 65 \<le> k \<and> k \<le> 70 then Some (k - 55)
      else None)"

definition hex4 :: "char \<Rightarrow> char \<Rightarrow> char \<Rightarrow> char \<Rightarrow> nat option" where
  "hex4 a b c d =
     (case (hex_val a, hex_val b, hex_val c, hex_val d) of
        (Some p, Some q, Some r, Some s) \<Rightarrow> Some (((p * 16 + q) * 16 + r) * 16 + s)
      | _ \<Rightarrow> None)"

definition unescape :: "char \<Rightarrow> char option" where
  "unescape e =
     (if e = CHR 0x22 then Some (CHR 0x22)
      else if e = CHR 0x5C then Some (CHR 0x5C)
      else if e = CHR ''/'' then Some (CHR ''/'')
      else if e = CHR ''b'' then Some (CHR 0x08)
      else if e = CHR ''f'' then Some (CHR 0x0C)
      else if e = CHR ''n'' then Some (CHR 0x0A)
      else if e = CHR ''r'' then Some (CHR 0x0D)
      else if e = CHR ''t'' then Some (CHR 0x09)
      else None)"

definition cons_result ::
  "char \<Rightarrow> parse_error + (string \<times> string) \<Rightarrow> parse_error + (string \<times> string)" where
  "cons_result c r = (case r of Inl e \<Rightarrow> Inl e | Inr (s, rest) \<Rightarrow> Inr (c # s, rest))"

fun parse_chars :: "string \<Rightarrow> parse_error + (string \<times> string)" where
  "parse_chars [] = Inl SyntaxError"
| "parse_chars (c # cs) =
     (if c = CHR 0x22 then Inr ([], cs)
      else if c = CHR 0x5C then
        (case cs of
           [] \<Rightarrow> Inl SyntaxError
         | e # cs1 \<Rightarrow>
             if e = CHR ''u'' then
               (case cs1 of
                  h1 # h2 # h3 # h4 # cs2 \<Rightarrow>
                    (case hex4 h1 h2 h3 h4 of
                       None \<Rightarrow> Inl SyntaxError
                     | Some v \<Rightarrow>
                         if v < 256 then cons_result (char_of v) (parse_chars cs2)
                         else Inl OutsideModel)
                | _ \<Rightarrow> Inl SyntaxError)
             else
               (case unescape e of
                  None \<Rightarrow> Inl SyntaxError
                | Some ch \<Rightarrow> cons_result ch (parse_chars cs1)))
      else if (of_char c :: nat) < 32 then Inl SyntaxError
      else cons_result c (parse_chars cs))"

definition has_minus :: "string \<Rightarrow> bool" where
  "has_minus s = (case s of c # r \<Rightarrow> c = CHR ''-'' | [] \<Rightarrow> False)"

definition number_digits :: "string \<Rightarrow> string" where
  "number_digits s =
     (case s of
        c # r \<Rightarrow> if c = CHR ''0'' then [c] else takeWhile is_digit s
      | [] \<Rightarrow> [])"

definition has_fraction :: "string \<Rightarrow> bool" where
  "has_fraction s =
     (case s of c # r \<Rightarrow> c = CHR ''.'' \<or> c = CHR ''e'' \<or> c = CHR ''E'' | [] \<Rightarrow> False)"

definition parse_number :: "string \<Rightarrow> parse_error + (json \<times> string)" where
  "parse_number s =
     (let s1 = (if has_minus s then tl s else s);
          ds = number_digits s1;
          rest = drop (length ds) s1
      in if ds = [] then Inl SyntaxError
         else if has_fraction rest then Inl OutsideModel
         else Inr (JNum (if has_minus s then - int (num_of ds) else int (num_of ds)), rest))"

fun put :: "string \<Rightarrow> json \<Rightarrow> (string \<times> json) list \<Rightarrow> (string \<times> json) list" where
  "put k v [] = [(k, v)]"
| "put k v (m # ms) = (if fst m = k then (k, v) # ms else m # put k v ms)"

text \<open>
  The parser of values is recursive in the nesting of arrays and objects. It is
  written with fuel: \<open>parse n\<close> makes at most \<open>n\<close> nested calls, and every call consumes
  at least one character before it calls again, so the fuel \<open>JSON_parse\<close> gives (one
  more than the length of the text) is never used up. The position says what the
  parser expects: a value; after an element of an array, a comma or the closing
  bracket; a member of an object; after a member, a comma or the closing brace. A key
  that occurs twice keeps its place and takes the later value (\<open>put\<close>).
\<close>

datatype position =
    Value
  | Elements "json list"
  | Member "(string \<times> json) list"
  | Members "(string \<times> json) list"

type_synonym parser = "position \<Rightarrow> string \<Rightarrow> parse_error + (json \<times> string)"

definition value_step :: "parser \<Rightarrow> string \<Rightarrow> parse_error + (json \<times> string)" where
  "value_step rec s =
     (case skip_ws s of
        [] \<Rightarrow> Inl SyntaxError
      | c # cs \<Rightarrow>
          if c = CHR ''['' then
            (case skip_ws cs of
               [] \<Rightarrow> Inl SyntaxError
             | d # ds \<Rightarrow>
                 if d = CHR '']'' then Inr (JArr [], ds)
                 else (case rec Value (d # ds) of
                         Inl e \<Rightarrow> Inl e
                       | Inr (v, r) \<Rightarrow> rec (Elements [v]) r))
          else if c = CHR ''{'' then
            (case skip_ws cs of
               [] \<Rightarrow> Inl SyntaxError
             | d # ds \<Rightarrow>
                 if d = CHR ''}'' then Inr (JObj [], ds)
                 else rec (Member []) (d # ds))
          else if c = CHR 0x22 then
            (case parse_chars cs of
               Inl e \<Rightarrow> Inl e
             | Inr (str, r) \<Rightarrow> Inr (JStr str, r))
          else if prefix ''true'' (c # cs) then Inr (JBool True, drop 4 (c # cs))
          else if prefix ''false'' (c # cs) then Inr (JBool False, drop 5 (c # cs))
          else if prefix ''null'' (c # cs) then Inr (JNull, drop 4 (c # cs))
          else if c = CHR ''-'' \<or> is_digit c then parse_number (c # cs)
          else Inl SyntaxError)"

definition elements_step ::
  "parser \<Rightarrow> json list \<Rightarrow> string \<Rightarrow> parse_error + (json \<times> string)" where
  "elements_step rec acc s =
     (case skip_ws s of
        [] \<Rightarrow> Inl SyntaxError
      | c # cs \<Rightarrow>
          if c = CHR '']'' then Inr (JArr acc, cs)
          else if c = CHR '','' then
            (case rec Value cs of
               Inl e \<Rightarrow> Inl e
             | Inr (v, r) \<Rightarrow> rec (Elements (acc @ [v])) r)
          else Inl SyntaxError)"

definition member_step ::
  "parser \<Rightarrow> (string \<times> json) list \<Rightarrow> string \<Rightarrow> parse_error + (json \<times> string)" where
  "member_step rec acc s =
     (case skip_ws s of
        [] \<Rightarrow> Inl SyntaxError
      | c # cs \<Rightarrow>
          if c = CHR 0x22 then
            (case parse_chars cs of
               Inl e \<Rightarrow> Inl e
             | Inr (k, r) \<Rightarrow>
                 (case skip_ws r of
                    [] \<Rightarrow> Inl SyntaxError
                  | c2 # r2 \<Rightarrow>
                      if c2 = CHR '':'' then
                        (case rec Value r2 of
                           Inl e \<Rightarrow> Inl e
                         | Inr (v, r3) \<Rightarrow> rec (Members (put k v acc)) r3)
                      else Inl SyntaxError))
          else Inl SyntaxError)"

definition members_step ::
  "parser \<Rightarrow> (string \<times> json) list \<Rightarrow> string \<Rightarrow> parse_error + (json \<times> string)" where
  "members_step rec acc s =
     (case skip_ws s of
        [] \<Rightarrow> Inl SyntaxError
      | c # cs \<Rightarrow>
          if c = CHR ''}'' then Inr (JObj acc, cs)
          else if c = CHR '','' then rec (Member acc) cs
          else Inl SyntaxError)"

primrec parse :: "nat \<Rightarrow> parser" where
  "parse 0 = (\<lambda>p s. Inl OutOfFuel)"
| "parse (Suc n) =
     (\<lambda>p s. case p of
        Value \<Rightarrow> value_step (parse n) s
      | Elements acc \<Rightarrow> elements_step (parse n) acc s
      | Member acc \<Rightarrow> member_step (parse n) acc s
      | Members acc \<Rightarrow> members_step (parse n) acc s)"

definition JSON_parse :: "string \<Rightarrow> parse_error + json" where
  "JSON_parse s =
     (case parse (Suc (length s)) Value s of
        Inl e \<Rightarrow> Inl e
      | Inr (v, r) \<Rightarrow> if skip_ws r = [] then Inr v else Inl SyntaxError)"

text \<open>
  The initializer of the \<^verbatim>\<open>notes\<close> hook (lines 27--30):
  \<^verbatim>\<open>saved ? JSON.parse(saved) : []\<close>, where \<^verbatim>\<open>getItem\<close> returns \<^verbatim>\<open>null\<close> for an absent
  key, and \<^verbatim>\<open>null\<close> and the empty string are falsy. \<open>Inl\<close> is an exception thrown out
  of the initializer; nothing in the component catches it.
\<close>

definition load :: "string option \<Rightarrow> parse_error + json" where
  "load saved =
     (case saved of
        None \<Rightarrow> Inr (JArr [])
      | Some s \<Rightarrow> if s = [] then Inr (JArr []) else JSON_parse s)"

text \<open>
  A note as the object the program builds (lines 64--71), a collection as an array,
  and the persistence effect (lines 39--41):
  \<^verbatim>\<open>localStorage.setItem('notes-app-data', JSON.stringify(notes))\<close>.
\<close>

definition note_json :: "Note \<Rightarrow> json" where
  "note_json n =
     JObj [(''id'', JStr (id_note n)), (''title'', JStr (title n)),
           (''content'', JStr (content n)), (''category'', JStr (category n)),
           (''updatedAt'', JNum (updatedAt n)), (''isFavorite'', JBool (isFavorite n))]"

definition notes_json :: "Note list \<Rightarrow> json" where
  "notes_json ns = JArr (map note_json ns)"

definition persist :: "Note list \<Rightarrow> string option" where
  "persist ns = Some (stringify (notes_json ns))"

text \<open>
  Reading a loaded value as the typed collection the component takes it for: each
  field by its key, as a property access does.
\<close>

definition string_field :: "string \<Rightarrow> json \<Rightarrow> string option" where
  "string_field k v = (case field k v of Some (JStr s) \<Rightarrow> Some s | _ \<Rightarrow> None)"

definition number_field :: "string \<Rightarrow> json \<Rightarrow> int option" where
  "number_field k v = (case field k v of Some (JNum i) \<Rightarrow> Some i | _ \<Rightarrow> None)"

definition boolean_field :: "string \<Rightarrow> json \<Rightarrow> bool option" where
  "boolean_field k v = (case field k v of Some (JBool b) \<Rightarrow> Some b | _ \<Rightarrow> None)"

definition note_of_json :: "json \<Rightarrow> Note option" where
  "note_of_json v =
     Option.bind (string_field ''id'' v) (\<lambda>i.
     Option.bind (string_field ''title'' v) (\<lambda>t.
     Option.bind (string_field ''content'' v) (\<lambda>c.
     Option.bind (string_field ''category'' v) (\<lambda>k.
     Option.bind (number_field ''updatedAt'' v) (\<lambda>u.
     Option.bind (boolean_field ''isFavorite'' v) (\<lambda>f.
       Some \<lparr>id_note = i, title = t, content = c, category = k,
             updatedAt = u, isFavorite = f\<rparr>))))))"

definition notes_of_json :: "json \<Rightarrow> Note list option" where
  "notes_of_json v = (case v of JArr vs \<Rightarrow> those (map note_of_json vs) | _ \<Rightarrow> None)"

text \<open>A sequence of upserts, each with the clock reading of its save.\<close>

definition upsert_all :: "(int \<times> Note) list \<Rightarrow> Note list \<Rightarrow> Note list" where
  "upsert_all upserts ns = fold (\<lambda>u. handleSaveNote (fst u) (snd u)) upserts ns"

definition two_upserts :: "(int \<times> Note) list" where
  "two_upserts =
     [(200, \<lparr>id_note = ''1'', title = ''Groceries'', content = ''buy milk'',
             category = Personal, updatedAt = 100, isFavorite = False\<rparr>),
      (300, \<lparr>id_note = ''2'', title = ''Plan'', content = [CHR 0x22, CHR ''a'', CHR 0x0A],
             category = Work, updatedAt = 150, isFavorite = True\<rparr>),
      (400, \<lparr>id_note = ''1'', title = ''Groceries'', content = ''buy milk and eggs'',
             category = Personal, updatedAt = 100, isFavorite = False\<rparr>)]"

text \<open>
  Two properties of a parser used for the recursive calls: every successful call
  leaves a text shorter than the one it was given; and no call on a text shorter than
  \<open>n\<close> runs out of fuel.
\<close>

definition consumes :: "parser \<Rightarrow> bool" where
  "consumes rec = (\<forall>p t v r. rec p t = Inr (v, r) \<longrightarrow> length r < length t)"

definition fueled :: "parser \<Rightarrow> nat \<Rightarrow> bool" where
  "fueled rec n = (\<forall>p t. length t < n \<longrightarrow> rec p t \<noteq> Inl OutOfFuel)"

text \<open>A text that ends a number: nothing, or a comma or a closing bracket or brace.\<close>

definition delimited :: "string \<Rightarrow> bool" where
  "delimited rest =
     (case rest of [] \<Rightarrow> True | c # r \<Rightarrow> c = CHR '','' \<or> c = CHR ''}'' \<or> c = CHR '']'')"

text \<open>
  For the history of ids: the clock readings that \<^verbatim>\<open>handleAddNote\<close> turned into ids
  during a run, every id a note of the collection had at some moment of a run, and the
  ids a state holds (in the collection and in the draft).
\<close>

fun id_readings :: "event list \<Rightarrow> int list" where
  "id_readings [] = []"
| "id_readings (AddNote now_id now_updated # es) = now_id # id_readings es"
| "id_readings (e # es) = id_readings es"

fun seen_ids :: "event list \<Rightarrow> App \<Rightarrow> string list" where
  "seen_ids [] s = map id_note (notes_app s)"
| "seen_ids (e # es) s =
     map id_note (notes_app s) @ (if fault s = None then seen_ids es (step e s) else [])"

definition ids_of :: "App \<Rightarrow> string set" where
  "ids_of s = id_note ` set (notes_app s) \<union> id_note ` set_option (editingNote s)"

text \<open>A session that creates a note, saves it and deletes it.\<close>

definition deleted_session :: "event list" where
  "deleted_session = [AddNote 5 6, SetContent ''x'', SaveNote 7, DeleteNote ''5'' True]"



text \<open>A small collection used to run the operations on concrete inputs.\<close>

definition three_notes :: "Note list" where
  "three_notes =
     [\<lparr>id_note = ''1'', title = ''Groceries'', content = ''buy milk'',
        category = Personal, updatedAt = 100, isFavorite = False\<rparr>,
      \<lparr>id_note = ''2'', title = ''Budget review'', content = ''quarterly numbers'',
        category = Work, updatedAt = 300, isFavorite = True\<rparr>,
      \<lparr>id_note = ''3'', title = ''Trip'', content = ''BUDGET for the summer'',
        category = Ideas, updatedAt = 200, isFavorite = False\<rparr>]"

section \<open>Properties of the repository operations\<close>

text \<open>
  C3. Upsert (\<^verbatim>\<open>handleSaveNote\<close>) of a note \<open>n\<close> at time \<open>T\<close>: when some note of the
  collection has the id of \<open>n\<close>, the result has the size of the collection, every
  position that held that id now holds \<open>n\<close> with \<open>updatedAt = T\<close>, and every other
  position is unchanged; when no note has that id, the result is the collection
  followed by \<open>n\<close> with \<open>updatedAt = T\<close>, one note longer.
\<close>

theorem handleSaveNote_upsert:
  "((\<exists>m\<in>set prev. id_note m = id_note n) \<longrightarrow>
      length (handleSaveNote T n prev) = length prev \<and>
      (\<forall>k<length prev. handleSaveNote T n prev ! k =
         (if id_note (prev ! k) = id_note n then n\<lparr>updatedAt := T\<rparr> else prev ! k))) \<and>
   (\<not> (\<exists>m\<in>set prev. id_note m = id_note n) \<longrightarrow>
      length (handleSaveNote T n prev) = length prev + 1 \<and>
      handleSaveNote T n prev = prev @ [n\<lparr>updatedAt := T\<rparr>])"
proof (cases "find (\<lambda>m. id_note m = id_note n) prev")
  case None
  then have "\<not> (\<exists>m\<in>set prev. id_note m = id_note n)"
    by (simp add: find_None_iff)
  with None show ?thesis
    by (simp add: handleSaveNote_def)
next
  case (Some existing)
  then obtain k where "k < length prev" and "id_note (prev ! k) = id_note n"
    unfolding find_Some_iff by blast
  then have "\<exists>m\<in>set prev. id_note m = id_note n"
    using nth_mem by blast
  moreover have "handleSaveNote T n prev =
      map (\<lambda>m. if id_note m = id_note n then n\<lparr>updatedAt := T\<rparr> else m) prev"
    unfolding handleSaveNote_def Some by simp
  ultimately show ?thesis
    by simp
qed

text \<open>
  The scenario of the specification (the note ''1'' saved again at time 200), and a
  note with a new id saved into the same collection.
\<close>

theorem handleSaveNote_upsert_witness:
  "(let prev = [\<lparr>id_note = ''1'', title = ''Groceries'', content = ''buy milk'',
                  category = Personal, updatedAt = 100, isFavorite = False\<rparr>];
        n = \<lparr>id_note = ''1'', title = ''Groceries'', content = ''buy milk and eggs'',
              category = Personal, updatedAt = 100, isFavorite = False\<rparr>;
        m = \<lparr>id_note = ''2'', title = ''Plan'', content = ''budget'',
              category = Work, updatedAt = 150, isFavorite = True\<rparr>
    in (\<exists>x\<in>set prev. id_note x = id_note n) \<and>
       length (handleSaveNote 200 n prev) = 1 \<and>
       handleSaveNote 200 n prev ! 0 = n\<lparr>updatedAt := 200\<rparr> \<and>
       content (handleSaveNote 200 n prev ! 0) = ''buy milk and eggs'' \<and>
       updatedAt (handleSaveNote 200 n prev ! 0) = 200 \<and>
       \<not> (\<exists>x\<in>set prev. id_note x = id_note m) \<and>
       length (handleSaveNote 200 m prev) = 2 \<and>
       handleSaveNote 200 m prev = prev @ [m\<lparr>updatedAt := 200\<rparr>])"
  using handleSaveNote_upsert [of
      "[\<lparr>id_note = ''1'', title = ''Groceries'', content = ''buy milk'',
          category = Personal, updatedAt = 100, isFavorite = False\<rparr>]"
      "\<lparr>id_note = ''1'', title = ''Groceries'', content = ''buy milk and eggs'',
         category = Personal, updatedAt = 100, isFavorite = False\<rparr>" 200]
    handleSaveNote_upsert [of
      "[\<lparr>id_note = ''1'', title = ''Groceries'', content = ''buy milk'',
          category = Personal, updatedAt = 100, isFavorite = False\<rparr>]"
      "\<lparr>id_note = ''2'', title = ''Plan'', content = ''budget'',
         category = Work, updatedAt = 150, isFavorite = True\<rparr>" 200]
  by (simp add: Let_def)

section \<open>Properties of the query engine\<close>












lemma letters_examples:
  "toLowerCase [CHR 0xC9, CHR ''T'', CHR 0xD7, CHR 0xDF] = [CHR 0xE9, CHR ''t'', CHR 0xD7, CHR 0xDF] \<and>
   same_letter (CHR 0xC9) (CHR 0xE9) \<and> same_letter (CHR ''q'') (CHR ''Q'') \<and>
   \<not> same_letter (CHR 0xD7) (CHR 0xF7) \<and> \<not> same_letter (CHR ''a'') (CHR ''b'')"
  by code_simp

lemma filteredNotes_capital_search:
  "filteredNotes three_notes ''bUdGeT'' All_notes = [three_notes ! 1, three_notes ! 2] \<and>
   filteredNotes [(three_notes ! 0)\<lparr>title := [CHR ''T'', CHR 0xC9]\<rparr>] [CHR 0xE9] All_notes =
     [(three_notes ! 0)\<lparr>title := [CHR ''T'', CHR 0xC9]\<rparr>]"
  by code_simp






lemma set_insert_by: "set (insert_by cmp x xs) = insert x (set xs)"
  by (induction xs) auto

lemma sorted_insert_by:
  "sorted_wrt (\<lambda>a b. k b \<le> (k a :: int)) xs \<Longrightarrow>
   sorted_wrt (\<lambda>a b. k b \<le> k a) (insert_by (\<lambda>a b. k b - k a) x xs)"
  by (induction xs) (auto simp: set_insert_by)

lemma sorted_sort_by:
  "sorted_wrt (\<lambda>a b. k b \<le> (k a :: int)) (sort_by (\<lambda>a b. k b - k a) xs)"
  by (induction xs) (auto simp: sorted_insert_by)

lemma insert_by_map:
  "(\<And>a b. cmp (f a) (f b) = cmp a b) \<Longrightarrow>
   insert_by cmp (f x) (map f xs) = map f (insert_by cmp x xs)"
  by (induction xs) auto

lemma sort_by_map:
  "(\<And>a b. cmp (f a) (f b) = cmp a b) \<Longrightarrow> sort_by cmp (map f xs) = map f (sort_by cmp xs)"
  by (induction xs) (auto simp: insert_by_map)


text \<open>
  C5. For every collection, search term and category filter, the result of the query
  engine is sorted by \<open>updatedAt\<close>, descending: a result \<open>A\<close> that stands before a
  result \<open>B\<close> has \<open>updatedAt A \<ge> updatedAt B\<close>.
\<close>

theorem filteredNotes_sorted:
  "sorted_wrt (\<lambda>A B. updatedAt A \<ge> updatedAt B)
     (filteredNotes notes searchQuery selectedCategory)"
  unfolding filteredNotes_def by (rule sorted_sort_by)

section \<open>The frame of toggleFavorite\<close>

lemma filter_toggleFavorite:
  "filter (\<lambda>n. matchesSearch q n \<and> matchesCategory c n) (toggleFavorite i ns) =
   toggleFavorite i (filter (\<lambda>n. matchesSearch q n \<and> matchesCategory c n) ns)"
  by (induction ns) (auto simp: toggleFavorite_def matchesSearch_def matchesCategory_def)

lemma filteredNotes_toggleFavorite:
  "filteredNotes (toggleFavorite i ns) q c = toggleFavorite i (filteredNotes ns q c)"
proof -
  let ?f = "\<lambda>n. if id_note n = i then n\<lparr>isFavorite := \<not> isFavorite n\<rparr> else n"
  have "sort_by (\<lambda>a b. updatedAt b - updatedAt a) (map ?f xs) =
        map ?f (sort_by (\<lambda>a b. updatedAt b - updatedAt a) xs)" for xs
    by (rule sort_by_map) simp
  then show ?thesis
    unfolding filteredNotes_def filter_toggleFavorite by (simp add: toggleFavorite_def)
qed

text \<open>
  C10. \<^verbatim>\<open>toggleFavorite\<close> keeps the size of the collection; at every position it
  flips \<open>isFavorite\<close> when the note there has the given id and leaves the note as it is
  otherwise; the ids, titles, contents, categories and \<open>updatedAt\<close> of the collection
  are unchanged, position by position; when no note has the id the collection is
  returned unchanged (a value, no error); and the query engine's view after the toggle
  is its view before, toggled: no note changes its place in the sorted result.
\<close>

theorem toggleFavorite_frame:
  "length (toggleFavorite i prev) = length prev \<and>
   (\<forall>k<length prev.
      toggleFavorite i prev ! k =
        (if id_note (prev ! k) = i
         then (prev ! k)\<lparr>isFavorite := \<not> isFavorite (prev ! k)\<rparr> else prev ! k) \<and>
      isFavorite (toggleFavorite i prev ! k) =
        (if id_note (prev ! k) = i then \<not> isFavorite (prev ! k) else isFavorite (prev ! k))) \<and>
   map id_note (toggleFavorite i prev) = map id_note prev \<and>
   map title (toggleFavorite i prev) = map title prev \<and>
   map content (toggleFavorite i prev) = map content prev \<and>
   map category (toggleFavorite i prev) = map category prev \<and>
   map updatedAt (toggleFavorite i prev) = map updatedAt prev \<and>
   (i \<notin> id_note ` set prev \<longrightarrow> toggleFavorite i prev = prev) \<and>
   filteredNotes (toggleFavorite i prev) q c = toggleFavorite i (filteredNotes prev q c)"
proof -
  have "i \<notin> id_note ` set prev \<Longrightarrow> toggleFavorite i prev = prev"
    by (induction prev) (auto simp: toggleFavorite_def)
  then show ?thesis
    by (simp add: filteredNotes_toggleFavorite) (simp add: toggleFavorite_def)
qed

text \<open>
  The scenario of the specification: toggling an id that no note of a three-note
  collection has; and toggling the id of the second note.
\<close>

theorem toggleFavorite_frame_witness:
  "(2::nat) < length three_notes \<and>
   ''missing-id'' \<notin> id_note ` set three_notes \<and>
   toggleFavorite ''missing-id'' three_notes = three_notes \<and>
   toggleFavorite ''2'' three_notes ! 1 = (three_notes ! 1)\<lparr>isFavorite := False\<rparr> \<and>
   toggleFavorite ''2'' three_notes ! 2 = three_notes ! 2 \<and>
   map updatedAt (toggleFavorite ''2'' three_notes) = [100, 300, 200]"
  using toggleFavorite_frame [of "''missing-id''" three_notes]
    toggleFavorite_frame [of "''2''" three_notes]
  by (simp add: three_notes_def)

section \<open>Properties of the AI assist client and of the editor session\<close>

text \<open>
  C8. For every content shorter than the threshold of 10 code units (the empty string
  included), \<^verbatim>\<open>getSmartSuggestions\<close> issues no outbound request and resolves to the
  empty result, whatever the service would have answered.
\<close>

theorem getSmartSuggestions_short:
  "length content' < 10 \<Longrightarrow>
     suggest_request content' = None \<and> getSmartSuggestions reply content' = empty_response"
  by (simp add: suggest_request_def getSmartSuggestions_def)

theorem getSmartSuggestions_short_witness:
  "length ''buy milk'' < 10 \<and> length ('''' :: string) < 10 \<and>
   suggest_request ''buy milk'' = None \<and> suggest_request '''' = None \<and>
   getSmartSuggestions (Replied bank_reply) ''buy milk'' = empty_response \<and>
   getSmartSuggestions Failed '''' = empty_response"
  using getSmartSuggestions_short [of "''buy milk''" "Replied bank_reply"]
    getSmartSuggestions_short [of "''''" Failed]
  by simp

lemma suggestionsSettled_frame:
  "isAILoading (suggestionsSettled reply c s) = False \<and>
   inFlight (suggestionsSettled reply c s) = inFlight s \<and>
   notes_app (suggestionsSettled reply c s) = notes_app s \<and>
   sent (suggestionsSettled reply c s) = sent s"
  by (simp add: suggestionsSettled_def split: option.splits sum.splits update_error.splits)

lemma ai_inv_step: "ai_inv s \<Longrightarrow> ai_inv (step e s)"
  by (cases e)
    (auto simp: ai_inv_def in_editor_def ai_disabled_def handleAISuggestions_def
      handleAIEnhance_def handleAddNote_def handleEditNote_def saveNote_def
      suggestionsSettled_frame enhanceSettled_def
      split: option.splits list.splits ai_call.splits if_splits)

lemma ai_inv_run: "ai_inv s \<Longrightarrow> ai_inv (run es s)"
  by (induction es arbitrary: s) (auto simp: ai_inv_step)

lemma ai_inv_initial: "ai_inv (initial ns)"
  by (simp add: ai_inv_def initial_def)

lemma busy_click_ignored:
  "isAILoading s \<Longrightarrow> step ClickSmartSuggest s = s \<and> step ClickAIEnhance s = s"
  by (simp add: in_editor_def ai_disabled_def split: option.splits)

lemma busy_session_eval:
  "busy_session =
     \<lparr>notes_app = [],
      editingNote = Some \<lparr>id_note = ''5'', title = [], content = ''remember to call the bank'',
                           category = General, updatedAt = 6, isFavorite = False\<rparr>,
      isNoteModalOpen = True, isAILoading = True,
      inFlight = [Suggest ''remember to call the bank''],
      sent = [suggest_prompt ''remember to call the bank''], fault = None\<rparr>"
  by (simp add: busy_session_def initial_def handleAddNote_def in_editor_def ai_disabled_def
      handleAISuggestions_def suggest_request_def toString_int_def digit_char_def
      digits.simps [of 5])

text \<open>
  C2. In every state a session reaches from its start, at most one AI handler
  invocation is in flight, and while one is in flight the busy flag is set. While the
  flag is set, a click on ``Smart Suggest'' or on ``AI Enhance'' changes nothing: the
  state is the same, so no request is sent and the draft is unchanged. (The guard is
  the \<^verbatim>\<open>disabled\<close> attribute of the two buttons, lines 386 and 395.)
\<close>

theorem one_ai_call_in_flight:
  "s = run es (initial ns) \<Longrightarrow>
     length (inFlight s) \<le> 1 \<and>
     (inFlight s \<noteq> [] \<longrightarrow> isAILoading s) \<and>
     (isAILoading s \<longrightarrow>
        step ClickSmartSuggest s = s \<and> step ClickAIEnhance s = s \<and>
        sent (step ClickSmartSuggest s) = sent s \<and> sent (step ClickAIEnhance s) = sent s \<and>
        editingNote (step ClickSmartSuggest s) = editingNote s \<and>
        editingNote (step ClickAIEnhance s) = editingNote s)"
proof -
  assume "s = run es (initial ns)"
  then have "ai_inv s"
    by (simp add: ai_inv_run ai_inv_initial)
  then have "length (inFlight s) \<le> 1" and "inFlight s \<noteq> [] \<longrightarrow> isAILoading s"
    by (auto simp: ai_inv_def split: if_splits)
  then show ?thesis
    using busy_click_ignored [of s] by simp
qed

theorem one_ai_call_in_flight_witness:
  "busy_session =
     run [AddNote 5 6, SetContent ''remember to call the bank'', ClickSmartSuggest] (initial []) \<and>
   length (inFlight busy_session) = 1 \<and> isAILoading busy_session \<and>
   length (sent busy_session) = 1 \<and>
   step ClickAIEnhance busy_session = busy_session \<and>
   step ClickSmartSuggest busy_session = busy_session"
proof -
  have r: "busy_session =
     run [AddNote 5 6, SetContent ''remember to call the bank'', ClickSmartSuggest] (initial [])"
    by (simp only: busy_session_def)
  have "length (inFlight busy_session) = 1 \<and> isAILoading busy_session \<and>
     length (sent busy_session) = 1 \<and>
     step ClickAIEnhance busy_session = busy_session \<and>
     step ClickSmartSuggest busy_session = busy_session"
    using one_ai_call_in_flight [OF r] by (simp add: busy_session_eval)
  with r show ?thesis
    by blast
qed




lemma applySuggestions_id: "applySuggestions v d = Inr d' \<Longrightarrow> id_note d' = id_note d"
  by (auto simp: applySuggestions_def split: sum.splits if_splits)




section \<open>Identifiers\<close>

text \<open>The decimal rendering of the clock is injective.\<close>

lemma lt10_cases: "d < 10 \<Longrightarrow> d \<in> {0, 1, 2, 3, 4, 5, 6, 7, 8, 9::nat}"
  by auto

lemma digit_val_digit_char: "d < 10 \<Longrightarrow> digit_val (digit_char d) = d"
  using lt10_cases [of d] by (auto simp: digit_val_def digit_char_def)

lemma digit_char_not_minus: "d < 10 \<Longrightarrow> digit_char d \<noteq> CHR ''-''"
  using lt10_cases [of d] by (auto simp: digit_char_def)

lemma num_of_snoc: "num_of (s @ [c]) = 10 * num_of s + digit_val c"
  by (simp add: num_of_def)

lemma num_of_digits_small: "n < 10 \<Longrightarrow> num_of (digits n) = n"
  by (simp add: digits.simps [of n] num_of_def digit_val_digit_char)

lemma num_of_digits_step:
  "\<not> n < 10 \<Longrightarrow> num_of (digits n) = 10 * num_of (digits (n div 10)) + n mod 10"
  by (simp add: digits.simps [of n] num_of_snoc digit_val_digit_char)

lemma num_of_digits: "num_of (digits n) = n"
proof (induction n rule: digits.induct)
  case (1 n)
  show ?case
  proof (cases "n < 10")
    case True
    then show ?thesis by (rule num_of_digits_small)
  next
    case False
    then have "num_of (digits (n div 10)) = n div 10" by (rule 1)
    with num_of_digits_step [OF False]
    have "num_of (digits n) = 10 * (n div 10) + n mod 10" by (simp only:)
    then show ?thesis by (simp only: mult_div_mod_eq)
  qed
qed

lemma set_digits_small: "n < 10 \<Longrightarrow> set (digits n) = {digit_char n}"
  by (simp add: digits.simps [of n])

lemma set_digits_step:
  "\<not> n < 10 \<Longrightarrow> set (digits n) = insert (digit_char (n mod 10)) (set (digits (n div 10)))"
  by (simp add: digits.simps [of n])

lemma digits_not_minus: "CHR ''-'' \<notin> set (digits n)"
proof (induction n rule: digits.induct)
  case (1 n)
  show ?case
  proof (cases "n < 10")
    case True
    then show ?thesis
      using digit_char_not_minus [of n] by (simp only: set_digits_small) simp
  next
    case False
    then have "CHR ''-'' \<notin> set (digits (n div 10))" by (rule 1)
    moreover have "digit_char (n mod 10) \<noteq> CHR ''-''"
      by (rule digit_char_not_minus) simp
    ultimately show ?thesis
      by (simp only: set_digits_step [OF False]) auto
  qed
qed

lemma digits_inj: "digits m = digits n \<Longrightarrow> m = n"
proof -
  assume eq: "digits m = digits n"
  have "m = num_of (digits m)" by (simp only: num_of_digits)
  also have "\<dots> = num_of (digits n)" by (simp only: eq)
  also have "\<dots> = n" by (simp only: num_of_digits)
  finally show ?thesis .
qed

lemma toString_int_inj: "toString_int a = toString_int b \<Longrightarrow> a = b"
proof -
  assume eq: "toString_int a = toString_int b"
  have minus: "CHR ''-'' \<in> set (toString_int i) \<longleftrightarrow> i < 0" for i
    by (simp add: toString_int_def digits_not_minus)
  have same_sign: "a < 0 \<longleftrightarrow> b < 0"
    using minus [of a] minus [of b] by (simp only: eq)
  show "a = b"
  proof (cases "a < 0")
    case True
    then have b: "b < 0" using same_sign by blast
    from eq True b have "digits (nat (- a)) = digits (nat (- b))"
      by (simp add: toString_int_def)
    then have "nat (- a) = nat (- b)" by (rule digits_inj)
    with True b show ?thesis by arith
  next
    case False
    then have b: "\<not> b < 0" using same_sign by blast
    from eq False b have "digits (nat a) = digits (nat b)"
      by (simp add: toString_int_def)
    then have "nat a = nat b" by (rule digits_inj)
    with False b show ?thesis by arith
  qed
qed

lemma handleSaveNote_existing:
  "find (\<lambda>n. id_note n = id_note d) ns = Some existing \<Longrightarrow>
   map id_note (handleSaveNote now d ns) = map id_note ns"
proof -
  assume found: "find (\<lambda>n. id_note n = id_note d) ns = Some existing"
  have "map id_note (map (\<lambda>n. if id_note n = id_note d then d\<lparr>updatedAt := now\<rparr> else n) ns) =
        map id_note ns"
    by (induction ns) auto
  then show ?thesis
    unfolding handleSaveNote_def found by simp
qed

lemma handleSaveNote_new:
  "find (\<lambda>n. id_note n = id_note d) ns = None \<Longrightarrow>
   map id_note (handleSaveNote now d ns) = map id_note ns @ [id_note d] \<and>
   id_note d \<notin> set (map id_note ns)"
proof -
  assume none: "find (\<lambda>n. id_note n = id_note d) ns = None"
  then have "id_note d \<notin> set (map id_note ns)"
    by (auto simp: find_None_iff)
  moreover have "handleSaveNote now d ns = ns @ [d\<lparr>updatedAt := now\<rparr>]"
    unfolding handleSaveNote_def none by simp
  ultimately show ?thesis
    by simp
qed

lemma ids_handleSaveNote:
  "set (map id_note (handleSaveNote now d ns)) \<subseteq> insert (id_note d) (set (map id_note ns))"
proof (cases "find (\<lambda>n. id_note n = id_note d) ns")
  case None
  show ?thesis
    using handleSaveNote_new [OF None, of now] by auto
next
  case (Some existing)
  show ?thesis
    unfolding handleSaveNote_existing [OF Some] by blast
qed

lemma distinct_handleSaveNote:
  "distinct (map id_note ns) \<Longrightarrow> distinct (map id_note (handleSaveNote now d ns))"
proof (cases "find (\<lambda>n. id_note n = id_note d) ns")
  case None
  assume "distinct (map id_note ns)"
  then show ?thesis
    using handleSaveNote_new [OF None, of now] by auto
next
  case (Some existing)
  assume "distinct (map id_note ns)"
  then show ?thesis
    unfolding handleSaveNote_existing [OF Some] .
qed

lemma distinct_handleDeleteNote:
  "distinct (map id_note ns) \<Longrightarrow> distinct (map id_note (handleDeleteNote confirmed i ns))"
  by (simp add: handleDeleteNote_def distinct_map_filter)

lemma ids_handleDeleteNote:
  "set (map id_note (handleDeleteNote confirmed i ns)) \<subseteq> set (map id_note ns)"
  by (auto simp: handleDeleteNote_def)

lemma ids_toggleFavorite: "map id_note (toggleFavorite i ns) = map id_note ns"
  by (induction ns) (auto simp: toggleFavorite_def)

lemma distinct_step:
  "distinct (map id_note (notes_app s)) \<Longrightarrow> distinct (map id_note (notes_app (step e s)))"
  by (cases e)
    (auto simp: in_editor_def handleAddNote_def handleEditNote_def saveNote_def
      distinct_handleSaveNote distinct_handleDeleteNote ids_toggleFavorite
      handleAISuggestions_def handleAIEnhance_def suggestionsSettled_frame enhanceSettled_def
      split: option.splits list.splits ai_call.splits)

lemma distinct_run:
  "distinct (map id_note (notes_app s)) \<Longrightarrow> distinct (map id_note (notes_app (run es s)))"
  by (induction es arbitrary: s) (auto simp: distinct_step)

lemma ids_of_step:
  "ids_of (step e s) \<subseteq> ids_of s \<union> toString_int ` set (id_readings [e])"
proof (cases e)
  case (SaveNote now)
  show ?thesis
    using ids_handleSaveNote [of now _ "notes_app s"]
    by (auto simp: SaveNote ids_of_def in_editor_def saveNote_def split: option.splits)
next
  case (DeleteNote i confirmed)
  show ?thesis
    using ids_handleDeleteNote [of confirmed i "notes_app s"]
    by (auto simp: DeleteNote ids_of_def)
next
  case (ToggleFavorite i)
  show ?thesis
    using arg_cong [OF ids_toggleFavorite [of i "notes_app s"], of set]
    by (auto simp: ToggleFavorite ids_of_def)
next
  case (SuggestSettled reply)
  have "ids_of (suggestionsSettled reply c s) \<subseteq> ids_of s" for c
    by (auto simp: ids_of_def suggestionsSettled_def applySuggestions_id
        split: option.splits sum.splits update_error.splits)
  then have "ids_of ((suggestionsSettled reply c s)\<lparr>inFlight := rest\<rparr>) \<subseteq> ids_of s" for c rest
    by (simp add: ids_of_def)
  then show ?thesis
    by (auto simp: SuggestSettled split: list.splits ai_call.splits)
qed (auto simp: ids_of_def in_editor_def handleAddNote_def handleEditNote_def
      handleAISuggestions_def handleAIEnhance_def enhanceSettled_def
      split: option.splits list.splits ai_call.splits)

lemma id_readings_Cons:
  "set (id_readings (e # es)) = set (id_readings [e]) \<union> set (id_readings es)"
  by (cases e) auto

lemma seen_ids_subset:
  "set (seen_ids es s) \<subseteq> ids_of s \<union> toString_int ` set (id_readings es)"
proof (induction es arbitrary: s)
  case Nil
  show ?case by (auto simp: ids_of_def)
next
  case (Cons e es)
  have "set (seen_ids (e # es) s) \<subseteq> id_note ` set (notes_app s) \<union> set (seen_ids es (step e s))"
    by auto
  also have "\<dots> \<subseteq> ids_of s \<union> (ids_of (step e s) \<union> toString_int ` set (id_readings es))"
    using Cons [of "step e s"] by (auto simp: ids_of_def)
  also have "\<dots> \<subseteq> ids_of s \<union> toString_int ` set (id_readings (e # es))"
    using ids_of_step [of e s] unfolding id_readings_Cons [of e es] by blast
  finally show ?case .
qed

lemma ids_of_initial: "ids_of (initial ns) = id_note ` set ns"
  by (simp add: ids_of_def initial_def)

lemma fresh_id_unseen:
  "t \<notin> set (id_readings es) \<Longrightarrow> toString_int t \<notin> id_note ` set ns \<Longrightarrow>
   toString_int t \<notin> set (seen_ids es (initial ns))"
proof
  assume t: "t \<notin> set (id_readings es)" and ns: "toString_int t \<notin> id_note ` set ns"
  assume "toString_int t \<in> set (seen_ids es (initial ns))"
  then have "toString_int t \<in> ids_of (initial ns) \<union> toString_int ` set (id_readings es)"
    using seen_ids_subset [of es "initial ns"] by blast
  with ns have "toString_int t \<in> toString_int ` set (id_readings es)"
    unfolding ids_of_initial by blast
  then obtain t' where "t' \<in> set (id_readings es)" and "toString_int t = toString_int t'"
    by blast
  with toString_int_inj [of t t'] t show False
    by blast
qed

lemma toString_int_5: "toString_int 5 = ''5''"
  by (simp add: toString_int_def digit_char_def digits.simps [of 5])

lemma toString_int_9: "toString_int 9 = ''9''"
  by (simp add: toString_int_def digit_char_def digits.simps [of 9])

lemma deleted_session_run: "run deleted_session (initial []) = initial []"
  by (simp add: deleted_session_def initial_def handleAddNote_def in_editor_def saveNote_def
      handleSaveNote_def handleDeleteNote_def toString_int_5)

lemma deleted_session_seen:
  "seen_ids deleted_session (initial []) = [''5'']"
  by (simp add: deleted_session_def initial_def handleAddNote_def in_editor_def saveNote_def
      handleSaveNote_def handleDeleteNote_def toString_int_5)

text \<open>
  C9, as the code has it. From a loaded collection with pairwise distinct ids (the empty
  one at a first start), every collection a session reaches has pairwise distinct ids.
  The id of a new note is the decimal rendering of the clock reading at its creation;
  it is none of the ids the collection ever held, deleted ones included, when that
  reading differs from the readings of all earlier creations and does not render to
  an id of the loaded collection.
\<close>

theorem ids_distinct_and_fresh:
  "distinct (map id_note ns) \<Longrightarrow>
     distinct (map id_note (notes_app (run es (initial ns)))) \<and>
     map_option id_note (editingNote (step (AddNote t u) (run es (initial ns)))) =
       Some (toString_int t) \<and>
     (t \<notin> set (id_readings es) \<and> toString_int t \<notin> id_note ` set ns \<longrightarrow>
        toString_int t \<notin> set (seen_ids es (initial ns)))"
proof -
  assume "distinct (map id_note ns)"
  then have "distinct (map id_note (notes_app (initial ns)))"
    by (simp add: initial_def)
  then have "distinct (map id_note (notes_app (run es (initial ns))))"
    by (rule distinct_run)
  moreover have "map_option id_note (editingNote (step (AddNote t u) (run es (initial ns)))) =
       Some (toString_int t)"
    by (simp add: handleAddNote_def)
  ultimately show ?thesis
    using fresh_id_unseen [of t es ns] by blast
qed

theorem ids_distinct_and_fresh_witness:
  "distinct (map id_note ([] :: Note list)) \<and>
   9 \<notin> set (id_readings deleted_session) \<and>
   toString_int 9 \<notin> id_note ` set ([] :: Note list) \<and>
   distinct (map id_note (notes_app (run deleted_session (initial [])))) \<and>
   map_option id_note (editingNote (step (AddNote 9 9) (run deleted_session (initial [])))) =
     Some ''9'' \<and>
   ''9'' \<notin> set (seen_ids deleted_session (initial []))"
proof -
  have r: "9 \<notin> set (id_readings deleted_session)"
    by (simp add: deleted_session_def)
  have d: "distinct (map id_note ([] :: Note list))"
    by simp
  show ?thesis
    using ids_distinct_and_fresh [OF d, of deleted_session 9 9] r
    by (simp add: toString_int_9)
qed

text \<open>
  C9 as stated fails: nothing records the ids of deleted notes, and the id is the clock
  reading alone. When the clock reads 5 at two creations (a clock set back), the id
  ''5'' of a note that was saved and deleted is given to the next new note.
\<close>

theorem id_reused_counterexample:
  "''5'' \<in> set (seen_ids deleted_session (initial [])) \<and>
   notes_app (run deleted_session (initial [])) = [] \<and>
   map_option id_note (editingNote (step (AddNote 5 8) (run deleted_session (initial [])))) =
     Some ''5''"
  by (simp add: deleted_session_seen deleted_session_run) 
    (simp add: initial_def handleAddNote_def toString_int_5)

section \<open>The fuel of the parser suffices\<close>

lemma length_skip_ws: "length (skip_ws s) \<le> length s"
  by (simp add: skip_ws_def length_dropWhile_le)

lemma skip_ws_Cons_length: "skip_ws s = c # cs \<Longrightarrow> length cs < length s"
  using length_skip_ws [of s] by simp

lemma cons_result_Inr:
  "cons_result c x = Inr (str, r) \<Longrightarrow> \<exists>str'. x = Inr (str', r)"
  by (auto simp: cons_result_def split: sum.splits)

lemma cons_result_Inl: "cons_result c x = Inl e \<Longrightarrow> x = Inl e"
  by (auto simp: cons_result_def split: sum.splits)

lemma parse_chars_Inr_cases:
  "parse_chars (c # cs) = Inr (str, r) \<Longrightarrow>
   r = cs \<or> (\<exists>t str'. parse_chars t = Inr (str', r) \<and> length t \<le> length cs)"
  by (fastforce split: if_splits list.splits option.splits dest!: cons_result_Inr)

lemma parse_chars_Inl_cases:
  "parse_chars (c # cs) = Inl OutOfFuel \<Longrightarrow>
   \<exists>t. parse_chars t = Inl OutOfFuel \<and> length t \<le> length cs"
  by (fastforce split: if_splits list.splits option.splits dest!: cons_result_Inl)

lemma parse_chars_length: "parse_chars s = Inr (str, r) \<Longrightarrow> length r < length s"
proof (induction "length s" arbitrary: s str rule: less_induct)
  case less
  then obtain c cs where s: "s = c # cs"
    by (cases s) auto
  from parse_chars_Inr_cases [of c cs str r] less(2)
  consider "r = cs" | t str' where "parse_chars t = Inr (str', r)" "length t \<le> length cs"
    unfolding s by blast
  then show ?case
  proof cases
    case 1
    then show ?thesis by (simp add: s)
  next
    case 2
    then have "length r < length t"
      using less(1) [of t str'] by (simp add: s)
    with 2 show ?thesis by (simp add: s)
  qed
qed

lemma parse_chars_fuel: "parse_chars s \<noteq> Inl OutOfFuel"
proof (induction "length s" arbitrary: s rule: less_induct)
  case less
  show ?case
  proof (cases s)
    case Nil
    then show ?thesis by simp
  next
    case (Cons c cs)
    show ?thesis
    proof
      assume "parse_chars s = Inl OutOfFuel"
      then obtain t where "parse_chars t = Inl OutOfFuel" "length t \<le> length cs"
        using parse_chars_Inl_cases [of c cs] unfolding Cons by blast
      then show False
        using less [of t] by (simp add: Cons)
    qed
  qed
qed

lemma length_number_digits: "length (number_digits s) \<le> length s"
proof (cases s)
  case Nil
  then show ?thesis by (simp add: number_digits_def)
next
  case (Cons c cs)
  show ?thesis
    using length_takeWhile_le [of is_digit "c # cs"]
    by (simp add: number_digits_def Cons del: takeWhile.simps)
qed

lemma parse_number_length: "parse_number s = Inr (v, r) \<Longrightarrow> length r < length s"
proof -
  assume p: "parse_number s = Inr (v, r)"
  let ?s1 = "if has_minus s then tl s else s"
  let ?ds = "number_digits ?s1"
  from p have ds: "?ds \<noteq> []" and r: "r = drop (length ?ds) ?s1"
    by (auto simp: parse_number_def Let_def split: if_splits)
  have "length ?ds \<le> length ?s1"
    by (rule length_number_digits)
  with ds have "length r < length ?s1"
    unfolding r by (cases ?ds) auto
  moreover have "length ?s1 \<le> length s"
    by simp
  ultimately show ?thesis
    by simp
qed

lemma parse_number_fuel: "parse_number s \<noteq> Inl OutOfFuel"
  by (simp add: parse_number_def Let_def)

lemma consumesD: "consumes rec \<Longrightarrow> rec p t = Inr (v, r) \<Longrightarrow> length r < length t"
  by (simp add: consumes_def)

lemma elements_step_length:
  "consumes rec \<Longrightarrow> elements_step rec acc s = Inr (v, r) \<Longrightarrow> length r < length s"
proof -
  assume rec: "consumes rec" and step: "elements_step rec acc s = Inr (v, r)"
  from step obtain c cs where s: "skip_ws s = c # cs"
    by (cases "skip_ws s") (auto simp: elements_step_def)
  then have cs: "length cs < length s"
    by (rule skip_ws_Cons_length)
  show ?thesis
  proof (cases "c = CHR '']''")
    case True
    with step s cs show ?thesis
      by (simp add: elements_step_def)
  next
    case False
    with step s obtain v' r' where
        "rec Value cs = Inr (v', r')" "rec (Elements (acc @ [v'])) r' = Inr (v, r)"
      by (auto simp: elements_step_def split: if_splits sum.splits)
    then have "length r' < length cs" "length r < length r'"
      using rec by (auto dest: consumesD)
    with cs show ?thesis by simp
  qed
qed

lemma members_step_length:
  "consumes rec \<Longrightarrow> members_step rec acc s = Inr (v, r) \<Longrightarrow> length r < length s"
proof -
  assume rec: "consumes rec" and step: "members_step rec acc s = Inr (v, r)"
  from step obtain c cs where s: "skip_ws s = c # cs"
    by (cases "skip_ws s") (auto simp: members_step_def)
  then have cs: "length cs < length s"
    by (rule skip_ws_Cons_length)
  show ?thesis
  proof (cases "c = CHR ''}''")
    case True
    with step s cs show ?thesis
      by (simp add: members_step_def)
  next
    case False
    with step s have "rec (Member acc) cs = Inr (v, r)"
      by (auto simp: members_step_def split: if_splits)
    then have "length r < length cs"
      using rec by (rule consumesD [rotated])
    with cs show ?thesis by simp
  qed
qed

lemma member_step_length:
  "consumes rec \<Longrightarrow> member_step rec acc s = Inr (v, r) \<Longrightarrow> length r < length s"
proof -
  assume rec: "consumes rec" and step: "member_step rec acc s = Inr (v, r)"
  from step obtain c cs where s: "skip_ws s = c # cs"
    by (cases "skip_ws s") (auto simp: member_step_def)
  then have cs: "length cs < length s"
    by (rule skip_ws_Cons_length)
  from step s obtain k r1 where k: "parse_chars cs = Inr (k, r1)"
    by (auto simp: member_step_def split: if_splits sum.splits)
  then have r1: "length r1 < length cs"
    by (rule parse_chars_length)
  from step s k obtain c2 r2 where r2: "skip_ws r1 = c2 # r2"
    by (cases "skip_ws r1") (auto simp: member_step_def split: if_splits)
  then have r2': "length r2 < length r1"
    by (rule skip_ws_Cons_length)
  from step s k r2 obtain v' r3 where
      "rec Value r2 = Inr (v', r3)" "rec (Members (put k v' acc)) r3 = Inr (v, r)"
    by (auto simp: member_step_def split: if_splits sum.splits)
  then have "length r3 < length r2" "length r < length r3"
    using rec by (auto dest: consumesD)
  with cs r1 r2' show ?thesis by simp
qed

lemma value_step_length:
  "consumes rec \<Longrightarrow> value_step rec s = Inr (v, r) \<Longrightarrow> length r < length s"
proof -
  assume rec: "consumes rec" and step: "value_step rec s = Inr (v, r)"
  from step obtain c cs where s: "skip_ws s = c # cs"
    by (cases "skip_ws s") (auto simp: value_step_def)
  then have cs: "length cs < length s"
    by (rule skip_ws_Cons_length)
  consider (array) "c = CHR ''[''" | (object) "c \<noteq> CHR ''[''" "c = CHR ''{''"
    | (string) "c \<noteq> CHR ''[''" "c \<noteq> CHR ''{''" "c = CHR 0x22"
    | (other) "c \<noteq> CHR ''[''" "c \<noteq> CHR ''{''" "c \<noteq> CHR 0x22"
    by blast
  then show ?thesis
  proof cases
    case array
    with step s obtain d ds where d: "skip_ws cs = d # ds"
      by (cases "skip_ws cs") (auto simp: value_step_def)
    then have ds: "length ds < length cs"
      by (rule skip_ws_Cons_length)
    show ?thesis
    proof (cases "d = CHR '']''")
      case True
      with step s array d ds cs show ?thesis
        by (simp add: value_step_def)
    next
      case False
      with step s array d obtain v' r' where
          "rec Value (d # ds) = Inr (v', r')" "rec (Elements [v']) r' = Inr (v, r)"
        by (auto simp: value_step_def split: sum.splits)
      then have "length r' < length (d # ds)" "length r < length r'"
        using rec by (auto dest: consumesD)
      with ds cs show ?thesis by simp
    qed
  next
    case object
    with step s obtain d ds where d: "skip_ws cs = d # ds"
      by (cases "skip_ws cs") (auto simp: value_step_def)
    then have ds: "length ds < length cs"
      by (rule skip_ws_Cons_length)
    show ?thesis
    proof (cases "d = CHR ''}''")
      case True
      with step s object d ds cs show ?thesis
        by (simp add: value_step_def)
    next
      case False
      with step s object d have "rec (Member []) (d # ds) = Inr (v, r)"
        by (simp add: value_step_def)
      then have "length r < length (d # ds)"
        using rec by (rule consumesD [rotated])
      with ds cs show ?thesis by simp
    qed
  next
    case string
    with step s obtain str where "parse_chars cs = Inr (str, r)"
      by (auto simp: value_step_def split: sum.splits)
    then have "length r < length cs"
      by (rule parse_chars_length)
    with cs show ?thesis by simp
  next
    case other
    with step s consider "r = drop 4 (c # cs)" "4 \<le> length (c # cs)"
      | "r = drop 5 (c # cs)" "5 \<le> length (c # cs)"
      | "parse_number (c # cs) = Inr (v, r)"
      by (auto simp: value_step_def prefix_def split: if_splits)
    then show ?thesis
    proof cases
      case 1
      with cs show ?thesis by simp
    next
      case 2
      with cs show ?thesis by simp
    next
      case 3
      then have "length r < length (c # cs)"
        by (rule parse_number_length)
      with cs show ?thesis by simp
    qed
  qed
qed

lemma consumes_parse: "consumes (parse n)"
proof (induction n)
  case 0
  show ?case by (simp add: consumes_def)
next
  case (Suc n)
  show ?case
    unfolding consumes_def
  proof (intro allI impI)
    fix p t v r
    assume "parse (Suc n) p t = Inr (v, r)"
    then show "length r < length t"
      using Suc
      by (cases p)
        (auto dest: value_step_length elements_step_length member_step_length
          members_step_length)
  qed
qed

lemma fueledD: "fueled rec n \<Longrightarrow> length t < n \<Longrightarrow> rec p t \<noteq> Inl OutOfFuel"
  by (simp add: fueled_def)

lemma elements_step_fuel:
  "consumes rec \<Longrightarrow> fueled rec (length s) \<Longrightarrow> elements_step rec acc s \<noteq> Inl OutOfFuel"
proof
  assume rec: "consumes rec" and fuel: "fueled rec (length s)"
    and step: "elements_step rec acc s = Inl OutOfFuel"
  from step obtain c cs where s: "skip_ws s = c # cs"
    by (cases "skip_ws s") (auto simp: elements_step_def)
  then have cs: "length cs < length s"
    by (rule skip_ws_Cons_length)
  from step s consider "rec Value cs = Inl OutOfFuel"
    | v' r' where "rec Value cs = Inr (v', r')" "rec (Elements (acc @ [v'])) r' = Inl OutOfFuel"
    by (auto simp: elements_step_def split: if_splits sum.splits)
  then show False
  proof cases
    case 1
    with fueledD [OF fuel cs] show False by blast
  next
    case 2
    then have "length r' < length cs"
      using rec by (auto dest: consumesD)
    with cs have "length r' < length s" by simp
    with fueledD [OF fuel this] 2 show False by blast
  qed
qed

lemma members_step_fuel:
  "fueled rec (length s) \<Longrightarrow> members_step rec acc s \<noteq> Inl OutOfFuel"
proof
  assume fuel: "fueled rec (length s)" and step: "members_step rec acc s = Inl OutOfFuel"
  from step obtain c cs where s: "skip_ws s = c # cs"
    by (cases "skip_ws s") (auto simp: members_step_def)
  then have cs: "length cs < length s"
    by (rule skip_ws_Cons_length)
  from step s have "rec (Member acc) cs = Inl OutOfFuel"
    by (auto simp: members_step_def split: if_splits)
  with fueledD [OF fuel cs] show False by blast
qed

lemma member_step_fuel:
  "consumes rec \<Longrightarrow> fueled rec (length s) \<Longrightarrow> member_step rec acc s \<noteq> Inl OutOfFuel"
proof
  assume rec: "consumes rec" and fuel: "fueled rec (length s)"
    and step: "member_step rec acc s = Inl OutOfFuel"
  from step obtain c cs where s: "skip_ws s = c # cs"
    by (cases "skip_ws s") (auto simp: member_step_def)
  then have cs: "length cs < length s"
    by (rule skip_ws_Cons_length)
  from step s parse_chars_fuel [of cs] obtain k r1 where k: "parse_chars cs = Inr (k, r1)"
    by (auto simp: member_step_def split: if_splits sum.splits)
  then have r1: "length r1 < length cs"
    by (rule parse_chars_length)
  from step s k obtain c2 r2 where r2: "skip_ws r1 = c2 # r2"
    by (cases "skip_ws r1") (auto simp: member_step_def split: if_splits)
  then have "length r2 < length r1"
    by (rule skip_ws_Cons_length)
  with cs r1 have r2': "length r2 < length s" by simp
  from step s k r2 consider "rec Value r2 = Inl OutOfFuel"
    | v' r3 where "rec Value r2 = Inr (v', r3)" "rec (Members (put k v' acc)) r3 = Inl OutOfFuel"
    by (auto simp: member_step_def split: if_splits sum.splits)
  then show False
  proof cases
    case 1
    with fueledD [OF fuel r2'] show False by blast
  next
    case 2
    then have "length r3 < length r2"
      using rec by (auto dest: consumesD)
    with r2' have "length r3 < length s" by simp
    with fueledD [OF fuel this] 2 show False by blast
  qed
qed

lemma value_step_fuel:
  "consumes rec \<Longrightarrow> fueled rec (length s) \<Longrightarrow> value_step rec s \<noteq> Inl OutOfFuel"
proof
  assume rec: "consumes rec" and fuel: "fueled rec (length s)"
    and step: "value_step rec s = Inl OutOfFuel"
  from step obtain c cs where s: "skip_ws s = c # cs"
    by (cases "skip_ws s") (auto simp: value_step_def)
  then have cs: "length cs < length s"
    by (rule skip_ws_Cons_length)
  consider (array) "c = CHR ''[''" | (object) "c \<noteq> CHR ''[''" "c = CHR ''{''"
    | (other) "c \<noteq> CHR ''[''" "c \<noteq> CHR ''{''"
    by blast
  then show False
  proof cases
    case array
    with step s obtain d ds where d: "skip_ws cs = d # ds"
      by (cases "skip_ws cs") (auto simp: value_step_def)
    then have "length ds < length cs"
      by (rule skip_ws_Cons_length)
    with cs have ds: "length (d # ds) < length s" by simp
    from step s array d consider "rec Value (d # ds) = Inl OutOfFuel"
      | v' r' where "rec Value (d # ds) = Inr (v', r')" "rec (Elements [v']) r' = Inl OutOfFuel"
      by (auto simp: value_step_def split: if_splits sum.splits)
    then show False
    proof cases
      case 1
      with fueledD [OF fuel ds] show False by blast
    next
      case 2
      then have "length r' < length (d # ds)"
        using rec by (auto dest: consumesD)
      with ds have "length r' < length s" by simp
      with fueledD [OF fuel this] 2 show False by blast
    qed
  next
    case object
    with step s obtain d ds where d: "skip_ws cs = d # ds"
      by (cases "skip_ws cs") (auto simp: value_step_def)
    then have "length ds < length cs"
      by (rule skip_ws_Cons_length)
    with cs have ds: "length (d # ds) < length s" by simp
    from step s object d have "rec (Member []) (d # ds) = Inl OutOfFuel"
      by (auto simp: value_step_def split: if_splits)
    with fueledD [OF fuel ds] show False by blast
  next
    case other
    with step s parse_chars_fuel [of cs] parse_number_fuel [of "c # cs"] show False
      by (auto simp: value_step_def split: if_splits sum.splits)
  qed
qed

lemma parse_fuel: "length s < n \<Longrightarrow> parse n p s \<noteq> Inl OutOfFuel"
proof (induction n arbitrary: p s)
  case 0
  then show ?case by simp
next
  case (Suc n)
  have "fueled (parse n) (length s)"
    unfolding fueled_def
  proof (intro allI impI)
    fix q and t :: string
    assume "length t < length s"
    with Suc.prems have "length t < n" by simp
    then show "parse n q t \<noteq> Inl OutOfFuel" by (rule Suc.IH)
  qed
  then show ?case
    using consumes_parse [of n]
    by (cases p)
      (simp_all add: value_step_fuel elements_step_fuel member_step_fuel members_step_fuel)
qed

lemma JSON_parse_fuel: "JSON_parse s \<noteq> Inl OutOfFuel"
  using parse_fuel [of s "Suc (length s)" Value]
  by (auto simp: JSON_parse_def split: sum.splits prod.splits if_splits)

section \<open>The storage round trip\<close>

lemma lt16_cases:
  "d < 16 \<Longrightarrow> d \<in> {0, 1, 2, 3, 4, 5, 6, 7, 8, 9, 10, 11, 12, 13, 14, 15::nat}"
  by (simp only: insert_iff empty_iff) arith

lemma hex_val_hex_digit: "d < 16 \<Longrightarrow> hex_val (hex_digit d) = Some d"
  using lt16_cases [of d] by (auto simp: hex_val_def hex_digit_def)

lemma hex4_control:
  "k < 32 \<Longrightarrow> hex4 (CHR ''0'') (CHR ''0'') (hex_digit (k div 16)) (hex_digit (k mod 16)) = Some k"
proof -
  assume "k < 32"
  then have "k div 16 < 16" and "k mod 16 < 16"
    by auto
  then have "hex_val (hex_digit (k div 16)) = Some (k div 16)"
    and "hex_val (hex_digit (k mod 16)) = Some (k mod 16)"
    by (simp_all add: hex_val_hex_digit)
  moreover have "hex_val (CHR ''0'') = Some 0"
    by (simp add: hex_val_def)
  ultimately show ?thesis
    by (simp add: hex4_def)
qed

lemma parse_chars_control:
  "(of_char c :: nat) < 32 \<Longrightarrow>
   parse_chars (CHR 0x5C # CHR ''u'' # CHR ''0'' # CHR ''0'' #
       hex_digit ((of_char c :: nat) div 16) # hex_digit ((of_char c :: nat) mod 16) # t) =
     cons_result c (parse_chars t)"
  by (simp add: hex4_control)

lemma parse_chars_quote_char: "parse_chars (quote_char c @ t) = cons_result c (parse_chars t)"
proof -
  consider (special) "c \<in> {CHR 0x22, CHR 0x5C, CHR 0x08, CHR 0x0C, CHR 0x0A, CHR 0x0D, CHR 0x09}"
    | (control) "c \<notin> {CHR 0x22, CHR 0x5C, CHR 0x08, CHR 0x0C, CHR 0x0A, CHR 0x0D, CHR 0x09}"
        "(of_char c :: nat) < 32"
    | (plain) "c \<notin> {CHR 0x22, CHR 0x5C, CHR 0x08, CHR 0x0C, CHR 0x0A, CHR 0x0D, CHR 0x09}"
        "\<not> (of_char c :: nat) < 32"
    by blast
  then show ?thesis
  proof cases
    case special
    then show ?thesis
      by (auto simp: quote_char_def unescape_def)
  next
    case control
    then have "quote_char c = [CHR 0x5C, CHR ''u'', CHR ''0'', CHR ''0'',
        hex_digit ((of_char c :: nat) div 16), hex_digit ((of_char c :: nat) mod 16)]"
      by (simp add: quote_char_def)
    then show ?thesis
      using parse_chars_control [OF control(2), of t] by simp
  next
    case plain
    then have "quote_char c = [c]"
      by (simp add: quote_char_def)
    with plain show ?thesis
      by simp
  qed
qed

lemma parse_chars_quoted:
  "parse_chars (concat (map quote_char s) @ CHR 0x22 # rest) = Inr (s, rest)"
proof (induction s)
  case Nil
  show ?case by simp
next
  case (Cons c s)
  have "parse_chars (concat (map quote_char (c # s)) @ CHR 0x22 # rest) =
        parse_chars (quote_char c @ (concat (map quote_char s) @ CHR 0x22 # rest))"
    by simp
  also have "\<dots> = cons_result c (parse_chars (concat (map quote_char s) @ CHR 0x22 # rest))"
    by (rule parse_chars_quote_char)
  also have "\<dots> = Inr (c # s, rest)"
    by (simp add: Cons cons_result_def)
  finally show ?case .
qed

lemma skip_ws_non_ws: "\<not> is_ws c \<Longrightarrow> skip_ws (c # cs) = c # cs"
  by (simp add: skip_ws_def)

lemma parse_string:
  "parse (Suc n) Value (quote s @ rest) = Inr (JStr s, rest)"
  by (simp add: quote_def value_step_def skip_ws_non_ws is_ws_def parse_chars_quoted)

lemma parse_bool:
  "parse (Suc n) Value ((if b then ''true'' else ''false'') @ rest) = Inr (JBool b, rest)"
  by (simp add: value_step_def skip_ws_non_ws is_ws_def)

lemma is_digit_digit_char: "d < 10 \<Longrightarrow> is_digit (digit_char d)"
  using lt10_cases [of d] by (auto simp: is_digit_def digit_char_def)

lemma digit_char_zero: "d < 10 \<Longrightarrow> digit_char d = CHR ''0'' \<Longrightarrow> d = 0"
  using lt10_cases [of d] by (auto simp: digit_char_def)

lemma digits_all_digits: "\<forall>c\<in>set (digits n). is_digit c"
proof (induction n rule: digits.induct)
  case (1 n)
  show ?case
  proof (cases "n < 10")
    case True
    then show ?thesis
      by (simp add: set_digits_small is_digit_digit_char)
  next
    case False
    then have "\<forall>c\<in>set (digits (n div 10)). is_digit c" by (rule 1)
    moreover have "is_digit (digit_char (n mod 10))"
      by (rule is_digit_digit_char) simp
    ultimately show ?thesis
      by (simp add: set_digits_step [OF False])
  qed
qed

lemma digits_not_Nil: "digits n \<noteq> []"
  by (simp add: digits.simps [of n])

lemma hd_digits_zero: "hd (digits n) = CHR ''0'' \<Longrightarrow> n = 0"
proof (induction n rule: digits.induct)
  case (1 n)
  show ?case
  proof (cases "n < 10")
    case True
    with 1(2) show ?thesis
      by (simp add: digits.simps [of n] digit_char_zero)
  next
    case False
    then have "hd (digits n) = hd (digits (n div 10))"
      by (simp add: digits.simps [of n] digits_not_Nil)
    with 1(2) have "hd (digits (n div 10)) = CHR ''0''"
      by (simp only:)
    with False have "n div 10 = 0"
      by (rule 1(1))
    with False show ?thesis
      by simp
  qed
qed

lemma digits_zero: "digits 0 = ''0''"
  by (simp add: digits.simps [of 0] digit_char_def)

lemma takeWhile_digits:
  "delimited rest \<Longrightarrow> takeWhile is_digit (digits n @ rest) = digits n"
proof -
  assume "delimited rest"
  then have "takeWhile is_digit rest = []"
    by (cases rest) (auto simp: delimited_def is_digit_def)
  then show ?thesis
    using digits_all_digits [of n] by (simp add: takeWhile_append2)
qed

lemma delimited_no_fraction: "delimited rest \<Longrightarrow> \<not> has_fraction rest"
  by (cases rest) (auto simp: delimited_def has_fraction_def)

lemma has_minus_digits: "\<not> has_minus (digits n @ rest)"
proof -
  obtain c cs where cs: "digits n = c # cs"
    using digits_not_Nil [of n] by (cases "digits n") auto
  have "is_digit c"
    using digits_all_digits [of n] by (simp add: cs)
  then have "c \<noteq> CHR ''-''"
    by (auto simp: is_digit_def)
  then show ?thesis
    by (simp add: has_minus_def cs)
qed

lemma number_digits_digits:
  "delimited rest \<Longrightarrow> number_digits (digits n @ rest) = digits n"
proof -
  assume rest: "delimited rest"
  obtain c cs where cs: "digits n = c # cs"
    using digits_not_Nil [of n] by (cases "digits n") auto
  show ?thesis
  proof (cases "c = CHR ''0''")
    case True
    then have "n = 0"
      using hd_digits_zero [of n] by (simp add: cs)
    then show ?thesis
      by (simp add: digits_zero number_digits_def)
  next
    case False
    then have "number_digits (digits n @ rest) = takeWhile is_digit (digits n @ rest)"
      by (simp add: number_digits_def cs)
    then show ?thesis
      by (simp only: takeWhile_digits [OF rest])
  qed
qed

lemma parse_number_digits:
  "delimited rest \<Longrightarrow> parse_number (digits n @ rest) = Inr (JNum (int n), rest)"
  by (simp add: parse_number_def Let_def has_minus_digits number_digits_digits
      digits_not_Nil delimited_no_fraction num_of_digits)

lemma parse_number_minus_digits:
  "delimited rest \<Longrightarrow>
   parse_number (CHR ''-'' # digits n @ rest) = Inr (JNum (- int n), rest)"
proof -
  assume rest: "delimited rest"
  have "has_minus (CHR ''-'' # digits n @ rest)"
    by (simp add: has_minus_def)
  then show ?thesis
    using rest
    by (simp add: parse_number_def Let_def number_digits_digits
        digits_not_Nil delimited_no_fraction num_of_digits)
qed

lemma parse_number_toString_int:
  "delimited rest \<Longrightarrow> parse_number (toString_int i @ rest) = Inr (JNum i, rest)"
proof (cases "i < 0")
  case False
  assume "delimited rest"
  then show ?thesis
    using False parse_number_digits [of rest "nat i"] by (simp add: toString_int_def)
next
  case True
  assume "delimited rest"
  then show ?thesis
    using True parse_number_minus_digits [of rest "nat (- i)"] by (simp add: toString_int_def)
qed

lemma number_start:
  "c = CHR ''-'' \<or> is_digit c \<Longrightarrow>
   \<not> is_ws c \<and> c \<noteq> CHR ''['' \<and> c \<noteq> CHR ''{'' \<and> c \<noteq> CHR 0x22 \<and>
   c \<noteq> CHR ''t'' \<and> c \<noteq> CHR ''f'' \<and> c \<noteq> CHR ''n''"
  by (auto simp: is_digit_def is_ws_def)

lemma value_step_number:
  "c = CHR ''-'' \<or> is_digit c \<Longrightarrow> value_step rec (c # cs) = parse_number (c # cs)"
proof -
  assume c: "c = CHR ''-'' \<or> is_digit c"
  from number_start [OF c] have "skip_ws (c # cs) = c # cs"
    by (simp add: skip_ws_non_ws)
  with number_start [OF c] c show ?thesis
    by (auto simp: value_step_def)
qed

lemma toString_int_head:
  "\<exists>c cs. toString_int i = c # cs \<and> (c = CHR ''-'' \<or> is_digit c)"
proof (cases "i < 0")
  case True
  then show ?thesis by (simp add: toString_int_def)
next
  case False
  obtain c cs where cs: "digits (nat i) = c # cs"
    using digits_not_Nil [of "nat i"] by (cases "digits (nat i)") auto
  have "is_digit c"
    using digits_all_digits [of "nat i"] by (simp add: cs)
  with False cs show ?thesis by (simp add: toString_int_def)
qed

lemma parse_int:
  "delimited rest \<Longrightarrow> parse (Suc n) Value (toString_int i @ rest) = Inr (JNum i, rest)"
proof -
  assume rest: "delimited rest"
  obtain c cs where cs: "toString_int i = c # cs" and c: "c = CHR ''-'' \<or> is_digit c"
    using toString_int_head [of i] by blast
  have "parse (Suc n) Value (toString_int i @ rest) = value_step (parse n) (c # cs @ rest)"
    by (simp add: cs)
  also have "\<dots> = parse_number (c # cs @ rest)"
    using c by (rule value_step_number)
  also have "\<dots> = Inr (JNum i, rest)"
    using parse_number_toString_int [OF rest, of i] by (simp add: cs)
  finally show ?thesis .
qed

lemma parse_member:
  "parse (Suc n) (Member acc) (quote k @ CHR '':'' # t) =
     (case parse n Value t of
        Inl e \<Rightarrow> Inl e
      | Inr (v, r) \<Rightarrow> parse n (Members (put k v acc)) r)"
  by (simp add: member_step_def quote_def skip_ws_non_ws is_ws_def parse_chars_quoted)

lemma parse_members_comma:
  "parse (Suc n) (Members acc) (CHR '','' # t) = parse n (Member acc) t"
  by (simp add: members_step_def skip_ws_non_ws is_ws_def)

lemma parse_members_close:
  "parse (Suc n) (Members acc) (CHR ''}'' # t) = Inr (JObj acc, t)"
  by (simp add: members_step_def skip_ws_non_ws is_ws_def)

lemma parse_object_open:
  "parse (Suc n) Value (CHR ''{'' # quote k @ t) = parse n (Member []) (quote k @ t)"
  by (simp add: value_step_def quote_def skip_ws_non_ws is_ws_def)

lemma parse_true:
  "parse (Suc n) Value (CHR ''t'' # CHR ''r'' # CHR ''u'' # CHR ''e'' # rest) =
     Inr (JBool True, rest)"
  by (simp add: value_step_def skip_ws_non_ws is_ws_def)

lemma parse_false:
  "parse (Suc n) Value (CHR ''f'' # CHR ''a'' # CHR ''l'' # CHR ''s'' # CHR ''e'' # rest) =
     Inr (JBool False, rest)"
  by (simp add: value_step_def skip_ws_non_ws is_ws_def)

lemma delimited_simps:
  "delimited (CHR '','' # t)" "delimited (CHR ''}'' # t)" "delimited (CHR '']'' # t)" "delimited []"
  by (simp_all add: delimited_def)

lemma stringify_note:
  "stringify (note_json x) @ rest =
     CHR ''{'' # quote ''id'' @ CHR '':'' # quote (id_note x) @
     CHR '','' # quote ''title'' @ CHR '':'' # quote (title x) @
     CHR '','' # quote ''content'' @ CHR '':'' # quote (content x) @
     CHR '','' # quote ''category'' @ CHR '':'' # quote (category x) @
     CHR '','' # quote ''updatedAt'' @ CHR '':'' # toString_int (updatedAt x) @
     CHR '','' # quote ''isFavorite'' @ CHR '':'' #
       (if isFavorite x then ''true'' else ''false'') @ CHR ''}'' # rest"
  by (simp add: note_json_def)

lemma parse_note_fuel:
  "parse (Suc (Suc (Suc (Suc (Suc (Suc (Suc (Suc (Suc (Suc (Suc (Suc (Suc m)))))))))))))
     Value (stringify (note_json x) @ rest) = Inr (note_json x, rest)"
  unfolding stringify_note
  by (simp only: parse_object_open parse_member parse_string parse_int parse_bool
      parse_members_comma parse_members_close delimited_simps sum.case prod.case)
    (simp add: note_json_def)

lemma parse_note:
  "13 \<le> n \<Longrightarrow> parse n Value (stringify (note_json x) @ rest) = Inr (note_json x, rest)"
proof -
  assume "13 \<le> n"
  then obtain m where "n = m + 13"
    using le_Suc_ex [of 13 n] by (auto simp: add.commute)
  then have "n = Suc (Suc (Suc (Suc (Suc (Suc (Suc (Suc (Suc (Suc (Suc (Suc (Suc m))))))))))))"
    by simp
  then show ?thesis
    by (simp only: parse_note_fuel)
qed

lemma join_Cons:
  "join (map f (x # xs)) = f x @ concat (map (\<lambda>y. CHR '','' # f y) xs)"
  by (induction xs arbitrary: x) auto

lemma parse_elements_notes:
  "length xs + 14 \<le> n \<Longrightarrow>
   parse n (Elements acc)
     (concat (map (\<lambda>y. CHR '','' # stringify (note_json y)) xs) @ CHR '']'' # rest) =
     Inr (JArr (acc @ map note_json xs), rest)"
proof (induction xs arbitrary: n acc)
  case Nil
  then obtain m where "n = Suc m"
    by (cases n) auto
  then show ?case
    by (simp add: elements_step_def skip_ws_non_ws is_ws_def)
next
  case (Cons x xs)
  then obtain m where n: "n = Suc m" and m: "length xs + 14 \<le> m"
    by (cases n) auto
  let ?tail = "concat (map (\<lambda>y. CHR '','' # stringify (note_json y)) xs) @ CHR '']'' # rest"
  have "parse n (Elements acc)
      (concat (map (\<lambda>y. CHR '','' # stringify (note_json y)) (x # xs)) @ CHR '']'' # rest) =
      elements_step (parse m) acc (CHR '','' # stringify (note_json x) @ ?tail)"
    by (simp add: n)
  also have "\<dots> =
      (case parse m Value (stringify (note_json x) @ ?tail) of
         Inl e \<Rightarrow> Inl e
       | Inr (v, r) \<Rightarrow> parse m (Elements (acc @ [v])) r)"
    by (simp add: elements_step_def skip_ws_non_ws is_ws_def)
  also have "\<dots> = parse m (Elements (acc @ [note_json x])) ?tail"
    using m by (simp add: parse_note)
  also have "\<dots> = Inr (JArr ((acc @ [note_json x]) @ map note_json xs), rest)"
    using m by (rule Cons.IH)
  finally show ?case
    by simp
qed

lemma length_stringify_note: "15 \<le> length (stringify (note_json x))"
  by (simp add: note_json_def quote_def)

lemma length_concat_notes:
  "length xs \<le> length (concat (map (\<lambda>y. CHR '','' # stringify (note_json y)) xs))"
  by (induction xs) auto

lemma stringify_notes_Nil: "stringify (notes_json []) = ''[]''"
  by (simp add: notes_json_def)

lemma stringify_notes_Cons:
  "stringify (notes_json (x # xs)) =
     CHR ''['' # stringify (note_json x) @
       concat (map (\<lambda>y. CHR '','' # stringify (note_json y)) xs) @ '']''"
proof -
  have "map stringify (map note_json (x # xs)) = map (\<lambda>y. stringify (note_json y)) (x # xs)"
    by simp
  then have "join (map stringify (map note_json (x # xs))) =
      stringify (note_json x) @ concat (map (\<lambda>y. CHR '','' # stringify (note_json y)) xs)"
    by (simp only: join_Cons)
  then show ?thesis
    by (simp add: notes_json_def)
qed

lemma stringify_note_head: "\<exists>t. stringify (note_json x) = CHR ''{'' # t"
  by (simp add: note_json_def)

lemma parse_notes:
  "JSON_parse (stringify (notes_json ns)) = Inr (notes_json ns)"
proof (cases ns)
  case Nil
  show ?thesis
    unfolding Nil stringify_notes_Nil
    by (simp add: JSON_parse_def value_step_def skip_ws_def is_ws_def notes_json_def)
next
  case (Cons x xs)
  let ?tail = "concat (map (\<lambda>y. CHR '','' # stringify (note_json y)) xs) @ '']''"
  let ?s = "stringify (notes_json (x # xs))"
  obtain t where t: "stringify (note_json x) = CHR ''{'' # t"
    using stringify_note_head by blast
  have len: "length xs + 14 \<le> length ?s"
    unfolding stringify_notes_Cons
    using length_stringify_note [of x] length_concat_notes [of xs] by simp
  have "parse (Suc (length ?s)) Value ?s =
      value_step (parse (length ?s)) (CHR ''['' # stringify (note_json x) @ ?tail)"
    by (simp add: stringify_notes_Cons)
  also have "\<dots> =
      (case parse (length ?s) Value (stringify (note_json x) @ ?tail) of
         Inl e \<Rightarrow> Inl e
       | Inr (v, r) \<Rightarrow> parse (length ?s) (Elements [v]) r)"
    by (simp add: value_step_def skip_ws_non_ws is_ws_def t)
  also have "\<dots> = parse (length ?s) (Elements [note_json x]) ?tail"
    using len by (simp add: parse_note)
  also have "\<dots> = Inr (JArr ([note_json x] @ map note_json xs), [])"
    using len parse_elements_notes [of xs "length ?s" "[note_json x]" "[]"] by simp
  finally have "parse (Suc (length ?s)) Value ?s = Inr (notes_json (x # xs), [])"
    by (simp add: notes_json_def)
  then show ?thesis
    unfolding Cons by (simp add: JSON_parse_def skip_ws_def)
qed

lemma stringify_notes_not_Nil: "stringify (notes_json ns) \<noteq> []"
  by (simp add: notes_json_def)

lemma load_persist: "load (persist ns) = Inr (notes_json ns)"
  by (simp add: load_def persist_def stringify_notes_not_Nil parse_notes)

lemma note_of_json_note_json: "note_of_json (note_json n) = Some n"
  by (simp add: note_of_json_def note_json_def string_field_def number_field_def
      boolean_field_def field_def)

lemma notes_of_json_notes_json: "notes_of_json (notes_json ns) = Some ns"
proof -
  have "those (map note_of_json (map note_json ns)) = Some ns"
    by (induction ns) (simp_all add: note_of_json_note_json)
  then show ?thesis
    by (simp add: notes_of_json_def notes_json_def)
qed

lemma two_upserts_eval:
  "upsert_all two_upserts [] =
     [\<lparr>id_note = ''1'', title = ''Groceries'', content = ''buy milk and eggs'',
        category = Personal, updatedAt = 400, isFavorite = False\<rparr>,
      \<lparr>id_note = ''2'', title = ''Plan'', content = [CHR 0x22, CHR ''a'', CHR 0x0A],
        category = Work, updatedAt = 300, isFavorite = True\<rparr>]"
  by (simp add: upsert_all_def two_upserts_def handleSaveNote_def)

lemma JSON_parse_brace: "JSON_parse ''{'' = Inl SyntaxError"
  by (simp add: JSON_parse_def value_step_def skip_ws_def is_ws_def)

lemma JSON_parse_words: "JSON_parse ''not json'' = Inl SyntaxError"
  by (simp add: JSON_parse_def value_step_def skip_ws_def is_ws_def is_digit_def)

lemma JSON_parse_42: "JSON_parse ''42'' = Inr (JNum 42)"
  by (simp add: JSON_parse_def value_step_def skip_ws_def is_ws_def is_digit_def
      parse_number_def has_minus_def number_digits_def has_fraction_def num_of_def
      digit_val_def)

text \<open>
  C6. For every sequence of upserts into the empty repository, loading what the
  persistence effect wrote for the resulting collection returns the array of the
  collection's note objects, and reading that array back field by field gives the
  collection itself: id, title, content, category, \<open>updatedAt\<close> and \<open>isFavorite\<close> of
  every note are the saved ones.
\<close>

theorem load_persist_roundtrip:
  "load (persist (upsert_all upserts [])) = Inr (notes_json (upsert_all upserts [])) \<and>
   notes_of_json (notes_json (upsert_all upserts [])) = Some (upsert_all upserts [])"
  by (simp add: load_persist notes_of_json_notes_json)

theorem load_persist_roundtrip_witness:
  "load (persist (upsert_all two_upserts [])) =
     Inr (JArr
       [JObj [(''id'', JStr ''1''), (''title'', JStr ''Groceries''),
              (''content'', JStr ''buy milk and eggs''), (''category'', JStr ''Personal''),
              (''updatedAt'', JNum 400), (''isFavorite'', JBool False)],
        JObj [(''id'', JStr ''2''), (''title'', JStr ''Plan''),
              (''content'', JStr [CHR 0x22, CHR ''a'', CHR 0x0A]), (''category'', JStr ''Work''),
              (''updatedAt'', JNum 300), (''isFavorite'', JBool True)]])"
  using load_persist_roundtrip [of two_upserts]
  by (simp add: two_upserts_eval notes_json_def note_json_def)

text \<open>
  C1, as the code has it. \<^verbatim>\<open>load\<close> yields the empty collection when the stored value
  is absent or the empty string, and the saved collection when the stored value is
  what the persistence effect wrote for a collection; in these cases it does not fail.
  It can fail only on a non-empty stored value that \<^verbatim>\<open>JSON.parse\<close> rejects, with the
  error of \<^verbatim>\<open>JSON.parse\<close> (never for lack of fuel, which is of the model only).
\<close>

theorem load_cases:
  "load None = Inr (JArr []) \<and> load (Some []) = Inr (JArr []) \<and>
   load (persist ns) = Inr (notes_json ns) \<and>
   (load saved = Inl e \<longrightarrow> (\<exists>t. saved = Some t \<and> t \<noteq> [] \<and> JSON_parse t = Inl e)) \<and>
   load saved \<noteq> Inl OutOfFuel"
proof -
  have "load saved \<noteq> Inl OutOfFuel"
    using JSON_parse_fuel by (auto simp: load_def split: option.splits)
  moreover have "load saved = Inl e \<longrightarrow> (\<exists>t. saved = Some t \<and> t \<noteq> [] \<and> JSON_parse t = Inl e)"
    by (auto simp: load_def split: option.splits if_splits)
  moreover have "load None = Inr (JArr []) \<and> load (Some []) = Inr (JArr [])"
    by (simp add: load_def)
  ultimately show ?thesis
    using load_persist [of ns] by blast
qed

text \<open>
  The stored text \<open>{\<close>: \<^verbatim>\<open>load\<close> fails, and the failure is the one of \<^verbatim>\<open>JSON.parse\<close>
  on a non-empty text.
\<close>

theorem load_cases_witness:
  "load (Some ''{'') = Inl SyntaxError \<and>
   (\<exists>t. Some ''{'' = Some t \<and> t \<noteq> [] \<and> JSON_parse t = Inl SyntaxError) \<and>
   load (persist []) = Inr (JArr [])"
proof -
  have "load (Some ''{'') = Inl SyntaxError"
    by (simp add: load_def JSON_parse_brace)
  then show ?thesis
    using load_cases [of "[]" "Some ''{''" SyntaxError] by (simp add: notes_json_def)
qed

text \<open>
  C1 as stated fails: on a malformed stored value \<^verbatim>\<open>JSON.parse\<close> throws and nothing
  catches the exception, so the result is not the empty collection; and a stored value
  that is well-formed but not an array is returned as it is.
\<close>

theorem load_malformed_counterexample:
  "load (Some ''{'') = Inl SyntaxError \<and> load (Some ''not json'') = Inl SyntaxError \<and>
   load (Some ''{'') \<noteq> Inr (JArr []) \<and> load (Some ''42'') = Inr (JNum 42)"
  by (simp add: load_def JSON_parse_brace JSON_parse_words JSON_parse_42)

end
